theory Spec2Isabelle
  imports Main "HOL-Library.Sublist"
begin

unbundle bit_operations_syntax

section \<open>Characters and character classes\<close>

text \<open>
  The obfuscator works on Python strings.  A character is modelled as a \<^typ>\<open>char\<close>, read as
  the code point of the same number, so the model covers texts whose code points are below 256.
  The classes \<open>\s\<close>, \<open>\w\<close> and \<open>\d\<close> are those of Python's \<open>re\<close> on \<open>str\<close> patterns,
  restricted to that range; \<open>str.strip\<close> removes the characters of \<open>\s\<close>.
\<close>

abbreviation newline :: char where "newline \<equiv> CHR 0x0A"
abbreviation dquote :: char where "dquote \<equiv> CHR 0x22"
abbreviation squote :: char where "squote \<equiv> CHR 0x27"
abbreviation backslash :: char where "backslash \<equiv> CHR 0x5C"
abbreviation hash :: char where "hash \<equiv> CHR 0x23"

definition codepoint :: "char \<Rightarrow> nat" where
  "codepoint c = of_char c"

definition is_digit :: "char \<Rightarrow> bool" where
  "is_digit c = (48 \<le> codepoint c \<and> codepoint c \<le> 57)"

definition is_space :: "char \<Rightarrow> bool" where
  "is_space c = ((9 \<le> codepoint c \<and> codepoint c \<le> 13) \<or> (28 \<le> codepoint c \<and> codepoint c \<le> 32)
                  \<or> codepoint c = 133 \<or> codepoint c = 160)"

definition is_ascii_letter :: "char \<Rightarrow> bool" where
  "is_ascii_letter c = ((65 \<le> codepoint c \<and> codepoint c \<le> 90) \<or> (97 \<le> codepoint c \<and> codepoint c \<le> 122))"

definition is_word :: "char \<Rightarrow> bool" where
  "is_word c = (is_ascii_letter c \<or> is_digit c \<or> c = CHR ''_''
                 \<or> codepoint c \<in> {170, 178, 179, 181, 185, 186, 188, 189, 190}
                 \<or> (192 \<le> codepoint c \<and> codepoint c \<le> 214)
                 \<or> (216 \<le> codepoint c \<and> codepoint c \<le> 246)
                 \<or> 248 \<le> codepoint c)"

definition is_hex :: "char \<Rightarrow> bool" where
  "is_hex c = (is_digit c \<or> (97 \<le> codepoint c \<and> codepoint c \<le> 102) \<or> (65 \<le> codepoint c \<and> codepoint c \<le> 70))"

definition is_octal :: "char \<Rightarrow> bool" where
  "is_octal c = (48 \<le> codepoint c \<and> codepoint c \<le> 55)"

section \<open>Tokens\<close>

datatype kind = Comment | Str | Charlit | Preproc | Number | Ident | Op | Punct | Ws

type_synonym token = "kind \<times> string"

section \<open>The tokenizer's regular expression\<close>

text \<open>
  \<open>TOKEN_REGEX\<close> is an alternation of nine named groups.  A matcher below takes the text
  that starts at the scan position and returns the length of the match of its group there,
  or \<open>None\<close>.  Python's engine tries the alternatives in order and keeps the first that
  matches; inside a group the quantifiers are greedy (lazy for \<open>.*?\<close>) and no group has a
  second way to match, so each matcher is a single left-to-right scan.
\<close>

definition orelse :: "'a option \<Rightarrow> 'a option \<Rightarrow> 'a option" where
  "orelse a b = (case a of Some x \<Rightarrow> Some x | None \<Rightarrow> b)"

definition lit :: "string \<Rightarrow> string \<Rightarrow> nat option" where
  "lit p s = (if take (length p) s = p then Some (length p) else None)"

definition many1 :: "(char \<Rightarrow> bool) \<Rightarrow> string \<Rightarrow> nat option" where
  "many1 P s = (let n = length (takeWhile P s) in if n = 0 then None else Some n)"

text \<open>\<open>.*?\*/\<close>: the length up to and including the first \<open>*/\<close>.\<close>

fun block_end :: "string \<Rightarrow> nat option" where
  "block_end (a # b # cs) =
     (if a = CHR ''*'' \<and> b = CHR ''/'' then Some 2 else map_option Suc (block_end (b # cs)))"
| "block_end _ = None"

definition match_comment :: "string \<Rightarrow> nat option" where
  "match_comment s =
     orelse
       (case lit ''/*'' s of None \<Rightarrow> None
        | Some n \<Rightarrow> map_option (\<lambda>m. n + m) (block_end (drop n s)))
       (case lit ''//'' s of None \<Rightarrow> None
        | Some n \<Rightarrow> Some (n + length (takeWhile (\<lambda>c. c \<noteq> newline) (drop n s))))"

text \<open>\<open>(?:[^q\\]|\\.)*q\<close> for a quote character \<open>q\<close>: the length up to and including the
  closing quote.  The dot matches a newline only under \<open>re.DOTALL\<close>, which \<open>TOKEN_REGEX\<close>
  sets and the patterns of the text passes do not.\<close>

fun quoted_body :: "bool \<Rightarrow> char \<Rightarrow> string \<Rightarrow> nat option" where
  "quoted_body dotall q [] = None"
| "quoted_body dotall q (c # cs) =
     (if c = q then Some 1
      else if c = backslash then
        (case cs of [] \<Rightarrow> None
         | d # ds \<Rightarrow> if dotall \<or> d \<noteq> newline
                    then map_option (\<lambda>n. n + 2) (quoted_body dotall q ds) else None)
      else map_option Suc (quoted_body dotall q cs))"

definition match_quoted :: "bool \<Rightarrow> char \<Rightarrow> string \<Rightarrow> nat option" where
  "match_quoted dotall q s =
     (case s of [] \<Rightarrow> None
      | c # cs \<Rightarrow> if c = q then map_option Suc (quoted_body dotall q cs) else None)"

definition match_string :: "string \<Rightarrow> nat option" where
  "match_string s = match_quoted True dquote s"

definition match_charlit :: "string \<Rightarrow> nat option" where
  "match_charlit s = match_quoted True squote s"

text \<open>\<open>^\#[^\n]*\<close> under \<open>re.MULTILINE\<close>: \<open>bol\<close> says whether the scan position is the start
  of the text or follows a newline.\<close>

definition match_preproc :: "bool \<Rightarrow> string \<Rightarrow> nat option" where
  "match_preproc bol s =
     (case s of [] \<Rightarrow> None
      | c # cs \<Rightarrow> if bol \<and> c = hash
                 then Some (1 + length (takeWhile (\<lambda>c. c \<noteq> newline) cs)) else None)"

definition match_hex :: "string \<Rightarrow> nat option" where
  "match_hex s =
     (case s of c # x # r \<Rightarrow>
        if c = CHR ''0'' \<and> (x = CHR ''x'' \<or> x = CHR ''X'')
        then map_option (\<lambda>n. 2 + n) (many1 is_hex r) else None
      | _ \<Rightarrow> None)"

definition match_octal :: "string \<Rightarrow> nat option" where
  "match_octal s =
     (case s of c # r \<Rightarrow> if c = CHR ''0'' then map_option Suc (many1 is_octal r) else None
      | _ \<Rightarrow> None)"

text \<open>\<open>(?:\.\d*)?\<close> and \<open>(?:[eE][+-]?\d+)?\<close>: the length of the optional part, 0 when absent.\<close>

definition opt_fraction :: "string \<Rightarrow> nat" where
  "opt_fraction s =
     (case s of c # r \<Rightarrow> if c = CHR ''.'' then 1 + length (takeWhile is_digit r) else 0
      | _ \<Rightarrow> 0)"

definition opt_exponent :: "string \<Rightarrow> nat" where
  "opt_exponent s =
     (case s of c # r \<Rightarrow>
        if c = CHR ''e'' \<or> c = CHR ''E'' then
          (let sg = (case r of d # _ \<Rightarrow> if d = CHR ''+'' \<or> d = CHR ''-'' then 1 else 0
                     | [] \<Rightarrow> (0::nat))
           in case many1 is_digit (drop sg r) of None \<Rightarrow> 0 | Some n \<Rightarrow> 1 + sg + n)
        else 0
      | _ \<Rightarrow> 0)"

definition match_decimal :: "string \<Rightarrow> nat option" where
  "match_decimal s =
     (case many1 is_digit s of None \<Rightarrow> None
      | Some n \<Rightarrow>
          (let f = opt_fraction (drop n s); e = opt_exponent (drop (n + f) s)
           in Some (n + f + e)))"

definition match_number :: "string \<Rightarrow> nat option" where
  "match_number s = orelse (match_hex s) (orelse (match_octal s) (match_decimal s))"

definition match_ident :: "string \<Rightarrow> nat option" where
  "match_ident s =
     (case s of [] \<Rightarrow> None
      | c # cs \<Rightarrow> if is_ascii_letter c \<or> c = CHR ''_''
                 then Some (1 + length (takeWhile is_word cs)) else None)"

definition op_chars :: "char set" where
  "op_chars = set ''+-*/%&|^~!<>=?:''"

text \<open>\<open>[+\-*/%&|^~!<>=?:]=?\<close>\<close>

definition match_op_char :: "string \<Rightarrow> nat option" where
  "match_op_char s =
     (case s of [] \<Rightarrow> None
      | c # cs \<Rightarrow> if c \<in> op_chars
                 then Some (case cs of d # _ \<Rightarrow> if d = CHR ''='' then 2 else 1 | [] \<Rightarrow> 1)
                 else None)"

definition match_op :: "string \<Rightarrow> nat option" where
  "match_op s =
     orelse (lit ''<<='' s) (orelse (lit ''>>='' s) (orelse (lit ''<<'' s) (orelse (lit ''>>'' s)
    (orelse (lit ''->'' s) (orelse (lit ''&&'' s) (orelse (lit ''||'' s) (orelse (match_op_char s)
    (orelse (lit ''=='' s) (orelse (lit ''!='' s) (orelse (lit ''<='' s) (orelse (lit ''>='' s)
    (orelse (lit ''++'' s) (lit ''--'' s)))))))))))))"

definition punct_chars :: "char set" where
  "punct_chars = set ''{}()[];,.''"

definition match_punct :: "string \<Rightarrow> nat option" where
  "match_punct s = (case s of [] \<Rightarrow> None | c # cs \<Rightarrow> if c \<in> punct_chars then Some 1 else None)"

definition match_ws :: "string \<Rightarrow> nat option" where
  "match_ws s = many1 is_space s"

definition tag :: "kind \<Rightarrow> nat option \<Rightarrow> (kind \<times> nat) option" where
  "tag k r = map_option (\<lambda>n. (k, n)) r"

text \<open>The whole alternation: the group that matched (\<open>m.lastgroup\<close>) and the match length.\<close>

definition match_token :: "bool \<Rightarrow> string \<Rightarrow> (kind \<times> nat) option" where
  "match_token bol s =
     orelse (tag Comment (match_comment s)) (orelse (tag Str (match_string s))
    (orelse (tag Charlit (match_charlit s)) (orelse (tag Preproc (match_preproc bol s))
    (orelse (tag Number (match_number s)) (orelse (tag Ident (match_ident s))
    (orelse (tag Op (match_op s)) (orelse (tag Punct (match_punct s))
    (tag Ws (match_ws s)))))))))"

subsection \<open>Every match is a non-empty prefix\<close>

definition fits :: "string \<Rightarrow> nat option \<Rightarrow> bool" where
  "fits s r = (case r of None \<Rightarrow> True | Some n \<Rightarrow> 0 < n \<and> n \<le> length s)"

lemma fits_orelse: "fits s a \<Longrightarrow> fits s b \<Longrightarrow> fits s (orelse a b)"
  by (cases a) (simp_all add: orelse_def fits_def)

lemma fits_lit: "p \<noteq> [] \<Longrightarrow> fits s (lit p s)"
proof -
  assume p: "p \<noteq> []"
  show ?thesis
  proof (cases "take (length p) s = p")
    case True
    then have "length (take (length p) s) = length p"
      by simp
    then have "length p \<le> length s"
      by simp
    with True p show ?thesis by (simp add: lit_def fits_def)
  next
    case False
    then show ?thesis by (simp add: lit_def fits_def)
  qed
qed

lemma takeWhile_le: "length (takeWhile P s) \<le> length s"
  by (induction s) auto

lemma fits_many1: "fits s (many1 P s)"
  by (simp add: many1_def fits_def Let_def takeWhile_le)

lemma block_end_bound: "block_end s = Some n \<Longrightarrow> 0 < n \<and> n \<le> length s"
  by (induction s arbitrary: n rule: block_end.induct) (auto split: if_splits)

lemma quoted_body_bound: "quoted_body d q s = Some n \<Longrightarrow> 0 < n \<and> n \<le> length s"
  by (induction d q s arbitrary: n rule: quoted_body.induct)
     (auto split: if_splits list.splits)

lemma takeWhile_drop_le: "n \<le> length s \<Longrightarrow> n + length (takeWhile P (drop n s)) \<le> length s"
  using takeWhile_le [of P "drop n s"] by simp

lemma fits_comment: "fits s (match_comment s)"
proof -
  have a: "fits s (case lit ''/*'' s of None \<Rightarrow> None
        | Some n \<Rightarrow> map_option (\<lambda>m. n + m) (block_end (drop n s)))"
    using fits_lit [of "''/*''" s]
    by (auto simp: fits_def split: option.splits dest!: block_end_bound)
  have b: "fits s (case lit ''//'' s of None \<Rightarrow> None
        | Some n \<Rightarrow> Some (n + length (takeWhile (\<lambda>c. c \<noteq> newline) (drop n s))))"
  proof (cases "lit ''//'' s")
    case None
    then show ?thesis by (simp add: fits_def)
  next
    case (Some n)
    with fits_lit [of "''//''" s] have "0 < n" "n \<le> length s"
      by (simp_all add: fits_def)
    with Some takeWhile_drop_le [of n s "\<lambda>c. c \<noteq> newline"] show ?thesis
      by (simp add: fits_def)
  qed
  show ?thesis unfolding match_comment_def by (rule fits_orelse [OF a b])
qed

lemma fits_quoted: "fits s (match_quoted d q s)"
  by (auto simp: fits_def match_quoted_def split: list.splits option.splits
           dest!: quoted_body_bound)

lemma fits_preproc: "fits s (match_preproc bol s)"
  by (auto simp: fits_def match_preproc_def takeWhile_le split: list.splits)

lemma fits_number: "fits s (match_number s)"
proof -
  have h: "fits s (match_hex s)"
    using takeWhile_le [of is_hex "drop 2 s"]
    by (auto simp: fits_def match_hex_def many1_def Let_def split: list.splits if_splits)
  have o: "fits s (match_octal s)"
    using takeWhile_le [of is_octal "drop 1 s"]
    by (auto simp: fits_def match_octal_def many1_def Let_def split: list.splits if_splits)
  have f: "opt_fraction t \<le> length t" for t
    using takeWhile_le [of is_digit "drop 1 t"]
    by (auto simp: opt_fraction_def split: list.splits)
  have e: "opt_exponent t \<le> length t" for t
  proof (cases t)
    case Nil
    then show ?thesis by (simp add: opt_exponent_def)
  next
    case (Cons c r)
    have "length (takeWhile is_digit (drop k r)) \<le> length r - k" for k
      using takeWhile_le [of is_digit "drop k r"] by simp
    from this [of 0] this [of 1] Cons show ?thesis
      by (auto simp: opt_exponent_def many1_def Let_def split: list.splits if_splits)
  qed
  have d: "fits s (match_decimal s)"
  proof (cases "many1 is_digit s")
    case None
    then show ?thesis by (simp add: match_decimal_def fits_def)
  next
    case (Some n)
    with fits_many1 [of s is_digit] have n: "0 < n" "n \<le> length s"
      by (simp_all add: fits_def)
    have "opt_fraction (drop n s) \<le> length s - n"
      using f [of "drop n s"] by simp
    moreover have "opt_exponent (drop (n + opt_fraction (drop n s)) s)
        \<le> length s - (n + opt_fraction (drop n s))"
      using e [of "drop (n + opt_fraction (drop n s)) s"] by simp
    ultimately show ?thesis
      using Some n by (simp add: match_decimal_def fits_def Let_def)
  qed
  show ?thesis unfolding match_number_def by (intro fits_orelse h o d)
qed

lemma fits_ident: "fits s (match_ident s)"
  by (auto simp: fits_def match_ident_def takeWhile_le split: list.splits)

lemma fits_op_char: "fits s (match_op_char s)"
  by (auto simp: fits_def match_op_char_def split: list.splits)

lemma fits_op: "fits s (match_op s)"
  unfolding match_op_def by (intro fits_orelse fits_lit fits_op_char) simp_all

lemma fits_punct: "fits s (match_punct s)"
  by (auto simp: fits_def match_punct_def split: list.splits)

lemma fits_tag: "fits s r \<Longrightarrow> (case tag k r of None \<Rightarrow> True | Some (k', n) \<Rightarrow> 0 < n \<and> n \<le> length s)"
  by (cases r) (simp_all add: tag_def fits_def)

definition fits2 :: "string \<Rightarrow> (kind \<times> nat) option \<Rightarrow> bool" where
  "fits2 s r = (case r of None \<Rightarrow> True | Some (k, n) \<Rightarrow> 0 < n \<and> n \<le> length s)"

lemma fits2_tag: "fits s r \<Longrightarrow> fits2 s (tag k r)"
  by (cases r) (simp_all add: tag_def fits_def fits2_def)

lemma fits2_orelse: "fits2 s a \<Longrightarrow> fits2 s b \<Longrightarrow> fits2 s (orelse a b)"
  by (cases a) (simp_all add: orelse_def fits2_def)

lemma match_token_bound:
  assumes "match_token bol s = Some (k, n)"
  shows "0 < n \<and> n \<le> length s"
proof -
  have "fits2 s (match_token bol s)"
    unfolding match_token_def match_string_def match_charlit_def match_ws_def
    by (intro fits2_orelse fits2_tag fits_comment fits_quoted fits_preproc fits_number
          fits_ident fits_op fits_punct fits_many1)
  with assms show ?thesis by (simp add: fits2_def)
qed

section \<open>Tokenization and serialization\<close>

text \<open>
  \<open>tokenize\<close> is \<open>TOKEN_REGEX.finditer\<close>: at each position it takes the match there and
  resumes after it; where nothing matches it moves one character on, and that character
  belongs to no token.
\<close>

function tokenize_from :: "bool \<Rightarrow> string \<Rightarrow> token list" where
  "tokenize_from bol [] = []"
| "tokenize_from bol (c # cs) =
     (case match_token bol (c # cs) of
        None \<Rightarrow> tokenize_from (c = newline) cs
      | Some (k, n) \<Rightarrow>
          (k, take n (c # cs))
            # tokenize_from (last (take n (c # cs)) = newline) (drop n (c # cs)))"
  by pat_completeness auto
termination
  by (relation "measure (\<lambda>(bol, s). length s)") (auto dest!: match_token_bound)

definition tokenize :: "string \<Rightarrow> token list" where
  "tokenize src = tokenize_from True src"

definition detokenize :: "token list \<Rightarrow> string" where
  "detokenize tokens = concat (map snd tokens)"

text \<open>
  Which characters of the text lie inside a match: one flag per character, in order,
  \<open>False\<close> for a character at which no alternative matched.
\<close>

function covered_from :: "bool \<Rightarrow> string \<Rightarrow> bool list" where
  "covered_from bol [] = []"
| "covered_from bol (c # cs) =
     (case match_token bol (c # cs) of
        None \<Rightarrow> False # covered_from (c = newline) cs
      | Some (k, n) \<Rightarrow>
          replicate n True
            @ covered_from (last (take n (c # cs)) = newline) (drop n (c # cs)))"
  by pat_completeness auto
termination
  by (relation "measure (\<lambda>(bol, s). length s)") (auto dest!: match_token_bound)

definition covered :: "string \<Rightarrow> bool list" where
  "covered src = covered_from True src"

text \<open>A text is scannable when every character of it lies inside a match.\<close>

definition scannable :: "string \<Rightarrow> bool" where
  "scannable src = (\<forall>b\<in>set (covered src). b)"

text \<open>The characters of a text whose flag is set.\<close>

definition keep :: "string \<Rightarrow> bool list \<Rightarrow> string" where
  "keep s m = map fst (filter snd (zip s m))"

lemma keep_append: "length a = length ma \<Longrightarrow> keep (a @ b) (ma @ mb) = keep a ma @ keep b mb"
  by (simp add: keep_def)

lemma keep_all: "keep a (replicate (length a) True) = a"
  by (induction a) (simp_all add: keep_def)

lemma length_covered_from: "length (covered_from bol s) = length s"
proof (induction bol s rule: covered_from.induct)
  case (1 bol)
  show ?case by simp
next
  case (2 bol c cs)
  show ?case
  proof (cases "match_token bol (c # cs)")
    case None
    with 2(1) show ?thesis by simp
  next
    case (Some p)
    obtain k n where p: "p = (k, n)" by (cases p)
    from Some p match_token_bound [of bol "c # cs" k n]
    have n: "0 < n" "n \<le> length (c # cs)" by simp_all
    from 2(2) [OF Some p [symmetric]] Some p n show ?thesis by simp
  qed
qed

lemma detokenize_covered_from:
  "detokenize (tokenize_from bol s) = keep s (covered_from bol s)"
proof (induction bol s rule: tokenize_from.induct)
  case (1 bol)
  show ?case by (simp add: detokenize_def keep_def)
next
  case (2 bol c cs)
  show ?case
  proof (cases "match_token bol (c # cs)")
    case None
    with 2(1) show ?thesis by (simp add: detokenize_def keep_def)
  next
    case (Some p)
    obtain k n where p: "p = (k, n)" by (cases p)
    from Some p match_token_bound [of bol "c # cs" k n]
    have n: "0 < n" "n \<le> length (c # cs)" by simp_all
    let ?a = "take n (c # cs)" and ?b = "drop n (c # cs)"
    let ?m = "covered_from (last ?a = newline) ?b"
    have la: "length ?a = n" using n by simp
    have ih: "detokenize (tokenize_from (last ?a = newline) ?b) = keep ?b ?m"
      using 2(2) [OF Some p [symmetric]] .
    have "keep (?a @ ?b) (replicate n True @ ?m) = keep ?a (replicate n True) @ keep ?b ?m"
      by (rule keep_append) (simp only: la length_replicate)
    also have "keep ?a (replicate n True) = ?a"
      using keep_all [of ?a] la by simp
    finally have "keep (c # cs) (replicate n True @ ?m) = ?a @ keep ?b ?m"
      by (simp only: append_take_drop_id)
    moreover have "detokenize (tokenize_from bol (c # cs)) = ?a @ keep ?b ?m"
      using Some p ih by (simp add: detokenize_def)
    moreover have "covered_from bol (c # cs) = replicate n True @ ?m"
      using Some p by simp
    ultimately show ?thesis by simp
  qed
qed

lemma keep_all_True: "length m = length s \<Longrightarrow> \<forall>b\<in>set m. b \<Longrightarrow> keep s m = s"
proof (induction s arbitrary: m)
  case Nil
  then show ?case by (simp add: keep_def)
next
  case (Cons a s)
  then obtain b m' where m: "m = b # m'" by (cases m) auto
  with Cons.prems have b: "b" and len: "length m' = length s" and rest: "\<forall>b\<in>set m'. b"
    by auto
  from Cons.IH [OF len rest] m b show ?case by (simp add: keep_def)
qed

section \<open>Configuration\<close>

datatype level = Mild | Moderate | Extreme

definition RESERVED :: "string set" where
  "RESERVED = set
    [''auto'', ''break'', ''case'', ''char'', ''const'', ''continue'', ''default'', ''do'',
     ''double'', ''else'', ''enum'', ''extern'', ''float'', ''for'', ''goto'', ''if'',
     ''int'', ''long'', ''register'', ''return'', ''short'', ''signed'', ''sizeof'', ''static'',
     ''struct'', ''switch'', ''typedef'', ''union'', ''unsigned'', ''void'', ''volatile'', ''while'',
     ''printf'', ''scanf'', ''malloc'', ''free'', ''strlen'', ''strcpy'', ''strcmp'', ''memcpy'',
     ''fopen'', ''fclose'', ''fread'', ''fwrite'', ''exit'', ''NULL'', ''stdin'', ''stdout'', ''stderr'',
     ''main'']"

definition CONFUSING :: "string list" where
  "CONFUSING =
    [''O0'', ''l1'', ''Il'', ''lI'', ''O0l'', ''l1I'', ''I1l'', ''OO0'', ''ll1'', ''Ill'', ''lll'', ''III'',
     ''oO0'', ''O0o'', ''_O'', ''_0'', ''_l'', ''_I'', ''__O'', ''__0'', ''__l'', ''__I'', ''O_0'', ''l_1'',
     ''I_l'', ''_O0'', ''_l1'', ''_Il'', ''OOO'', ''lll1'', ''IlI'', ''lIl'', ''IIl'', ''O0O0'', ''l1l1'',
     ''IlIl'', ''O00O'', ''l11l'', ''oOoO'', ''Oo0O'', ''oO0o'', ''lO0l'', ''IlO0'', ''OlIl'', ''lIO0'',
     ''O0Il'', ''Il0O'', ''lO0I'']"

section \<open>Randomness\<close>

text \<open>
  The process-wide generator of \<open>random\<close> is a tape of draws, threaded through the calls in
  the order the program makes them.  \<open>randbelow n\<close> is \<open>Random._randbelow(n)\<close>: it consumes
  one draw and returns a number below \<open>n\<close>; an exhausted tape keeps giving 0.
\<close>

type_synonym rng = "nat list"

definition randbelow :: "nat \<Rightarrow> rng \<Rightarrow> nat \<times> rng" where
  "randbelow n r = (case r of [] \<Rightarrow> (0, []) | x # xs \<Rightarrow> (x mod n, xs))"

text \<open>\<open>random.choice(seq)\<close> is \<open>seq[_randbelow(len(seq))]\<close>.\<close>

definition choice :: "'a list \<Rightarrow> rng \<Rightarrow> 'a \<times> rng" where
  "choice seq r = (let (i, r') = randbelow (length seq) r in (seq ! i, r'))"

text \<open>\<open>random.randint(a, b)\<close> is \<open>a + _randbelow(b - a + 1)\<close>.\<close>

definition randint :: "int \<Rightarrow> int \<Rightarrow> rng \<Rightarrow> int \<times> rng" where
  "randint a b r = (let (i, r') = randbelow (nat (b - a + 1)) r in (a + int i, r'))"

text \<open>\<open>random.shuffle(x)\<close>: for \<open>i\<close> from \<open>len(x) - 1\<close> down to 1, swap \<open>x[i]\<close> with
  \<open>x[_randbelow(i + 1)]\<close>.\<close>

fun shuffle_loop :: "nat \<Rightarrow> 'a list \<Rightarrow> rng \<Rightarrow> 'a list \<times> rng" where
  "shuffle_loop 0 x r = (x, r)"
| "shuffle_loop (Suc k) x r =
     (let i = Suc k; (j, r') = randbelow (i + 1) r
      in shuffle_loop k (x[i := x ! j, j := x ! i]) r')"

definition shuffle :: "'a list \<Rightarrow> rng \<Rightarrow> 'a list \<times> rng" where
  "shuffle x r = shuffle_loop (length x - 1) x r"

section \<open>Name generation\<close>

function extend_pool :: "nat \<Rightarrow> string list \<Rightarrow> rng \<Rightarrow> string list \<times> rng" where
  "extend_pool count pool r =
     (if length pool < count then
        (let (a, r1) = choice CONFUSING r; (b, r2) = choice [''_'', ''0'', ''1''] r1
         in extend_pool count (pool @ [a @ b]) r2)
      else (pool, r))"
  by pat_completeness auto
termination
  by (relation "measure (\<lambda>(count, pool, r). count - length pool)") auto

definition base_pool :: "nat \<Rightarrow> level \<Rightarrow> rng \<Rightarrow> string list \<times> rng" where
  "base_pool count style r =
     (case style of
        Mild \<Rightarrow> (map (\<lambda>c. [c]) ''xyzqwkjvnmftbpdr''
                   @ concat (map (\<lambda>a. map (\<lambda>b. [a, b]) ''0123456789'') ''xyzqw''), r)
      | Moderate \<Rightarrow> (concat (map (\<lambda>p. map (\<lambda>b. p @ [b]) ''xyzqwkjvnmftbpdr0123456789'')
                                [''_'', ''__'', ''___'']), r)
      | Extreme \<Rightarrow> extend_pool count CONFUSING r)"

definition generate_names :: "nat \<Rightarrow> level \<Rightarrow> rng \<Rightarrow> string list \<times> rng" where
  "generate_names count style r =
     (let (pool, r1) = base_pool count style r; (pool', r2) = shuffle pool r1
      in (take count pool', r2))"

section \<open>Token passes\<close>

definition strip_comments :: "token list \<Rightarrow> token list" where
  "strip_comments tokens = filter (\<lambda>(k, v). k \<noteq> Comment) tokens"

text \<open>\<open>freq\<close> is an \<open>OrderedDict\<close>: an association list in insertion order, a key's count
  updated in place.\<close>

fun bump :: "string \<Rightarrow> (string \<times> nat) list \<Rightarrow> (string \<times> nat) list" where
  "bump v [] = [(v, 1)]"
| "bump v ((k, c) # rest) = (if k = v then (k, c + 1) # rest else (k, c) # bump v rest)"

fun tally :: "token list \<Rightarrow> (string \<times> nat) list \<Rightarrow> (string \<times> nat) list" where
  "tally [] freq = freq"
| "tally ((kind, v) # tokens) freq =
     tally tokens (if kind = Ident \<and> v \<notin> RESERVED then bump v freq else freq)"

datatype error = IndexError | ValueError

type_synonym mapping = "(string \<times> string) list"

text \<open>The dict comprehension reads \<open>names[i]\<close> for every sorted identifier; it raises
  \<open>IndexError\<close> when the pool returned fewer names than there are identifiers.\<close>

definition build_mapping :: "string list \<Rightarrow> string list \<Rightarrow> error + mapping" where
  "build_mapping origs names =
     (if length names < length origs then Inl IndexError else Inr (zip origs names))"

definition apply_mapping :: "mapping \<Rightarrow> token list \<Rightarrow> token list" where
  "apply_mapping m tokens =
     map (\<lambda>(kind, v). case map_of m v of
            Some n \<Rightarrow> if kind = Ident then (kind, n) else (kind, v)
          | None \<Rightarrow> (kind, v)) tokens"

definition rename_identifiers ::
    "token list \<Rightarrow> level \<Rightarrow> rng \<Rightarrow> error + (token list \<times> mapping) \<times> rng" where
  "rename_identifiers tokens lvl r =
     (let freq = tally tokens [];
          sorted_idents = sort_key (\<lambda>(k, c). - int c) freq;
          (names, r') = generate_names (length sorted_idents) lvl r
      in case build_mapping (map fst sorted_idents) names of
           Inl e \<Rightarrow> Inl e
         | Inr m \<Rightarrow> Inr ((apply_mapping m tokens, m), r'))"

text \<open>\<open>compress_whitespace\<close>: \<open>prev\<close> is the last token appended to \<open>result\<close>, \<open>nxt\<close> the next
  input token; the kind of the placeholder \<open>("", "")\<close> is \<open>None\<close>.\<close>

fun compress_loop :: "level \<Rightarrow> token list \<Rightarrow> token list \<Rightarrow> token list" where
  "compress_loop lvl result [] = result"
| "compress_loop lvl result ((kind, v) # rest) =
     (if kind \<noteq> Ws then compress_loop lvl (result @ [(kind, v)]) rest
      else
        (let prev = (if result = [] then None else Some (fst (last result)));
             nxt = (case rest of [] \<Rightarrow> None | t # _ \<Rightarrow> Some (fst t))
         in if lvl = Mild \<or> lvl = Moderate then
              compress_loop lvl
                (result @ [(Ws, if newline \<in> set v then [newline] else '' '')]) rest
            else if nxt = Some Preproc \<or> prev = Some Preproc then
              compress_loop lvl (result @ [(Ws, [newline])]) rest
            else if (prev = Some Ident \<or> prev = Some Number)
                    \<and> (nxt = Some Ident \<or> nxt = Some Number) then
              compress_loop lvl (result @ [(Ws, '' '')]) rest
            else compress_loop lvl result rest))"

definition compress_whitespace :: "token list \<Rightarrow> level \<Rightarrow> token list" where
  "compress_whitespace tokens lvl = compress_loop lvl [] tokens"

section \<open>Text passes\<close>

text \<open>\<open>s.split("\n")\<close>, \<open>"\n".join(xs)\<close>, \<open>s.strip()\<close> and \<open>s.startswith(p)\<close>.\<close>

fun split_lines :: "string \<Rightarrow> string list" where
  "split_lines [] = [[]]"
| "split_lines (c # cs) =
     (let r = split_lines cs in if c = newline then [] # r else (c # hd r) # tl r)"

fun join_lines :: "string list \<Rightarrow> string" where
  "join_lines [] = []"
| "join_lines [x] = x"
| "join_lines (x # y # ys) = x @ newline # join_lines (y # ys)"

definition strip :: "string \<Rightarrow> string" where
  "strip s = rev (dropWhile is_space (rev (dropWhile is_space s)))"

definition startswith :: "string \<Rightarrow> string \<Rightarrow> bool" where
  "startswith s p = (take (length p) s = p)"

fun flatten_loop :: "string list \<Rightarrow> string list \<Rightarrow> string \<Rightarrow> string list \<times> string" where
  "flatten_loop [] result buffer = (result, buffer)"
| "flatten_loop (line # lines) result buffer =
     (let stripped = strip line
      in if stripped = [] then flatten_loop lines result buffer
         else if startswith stripped ''#'' then
           (if buffer \<noteq> [] then flatten_loop lines (result @ [strip buffer] @ [stripped]) []
            else flatten_loop lines (result @ [stripped]) buffer)
         else flatten_loop lines result (buffer @ '' '' @ stripped))"

definition flatten_code :: "string \<Rightarrow> level \<Rightarrow> string" where
  "flatten_code src lvl =
     (if lvl \<noteq> Extreme then src
      else
        (let (result, buffer) = flatten_loop (split_lines src) [] []
         in join_lines (if buffer \<noteq> [] then result @ [strip buffer] else result)))"

text \<open>\<open>re.split\<close> on the string-literal pattern with its capture group: the segments outside
  the matches at the even indices, the matches at the odd ones.  \<open>acc\<close> is the text since
  the last match.\<close>

definition match_string_text :: "string \<Rightarrow> nat option" where
  "match_string_text s = match_quoted False dquote s"

lemma match_string_text_bound: "match_string_text s = Some n \<Longrightarrow> 0 < n \<and> n \<le> length s"
  using fits_quoted [of s False dquote] by (simp add: match_string_text_def fits_def)

function split_strings_from :: "string \<Rightarrow> string \<Rightarrow> string list" where
  "split_strings_from acc [] = [acc]"
| "split_strings_from acc (c # cs) =
     (case match_string_text (c # cs) of
        None \<Rightarrow> split_strings_from (acc @ [c]) cs
      | Some n \<Rightarrow> acc # take n (c # cs) # split_strings_from [] (drop n (c # cs)))"
  by pat_completeness auto
termination
  by (relation "measure (\<lambda>(acc, s). length s)") (auto dest!: match_string_text_bound)

definition split_strings :: "string \<Rightarrow> string list" where
  "split_strings src = split_strings_from [] src"

text \<open>\<open>\b(\w+)\s*o\s*(\w+)\b\<close> for an operator character \<open>o\<close>, at a position whose previous
  character is a word character or not (\<open>pw\<close>): the two groups and the match length.\<close>

definition match_binop :: "char \<Rightarrow> bool \<Rightarrow> string \<Rightarrow> (string \<times> string \<times> nat) option" where
  "match_binop opc pw s =
     (if pw then None
      else
        (let w1 = takeWhile is_word s; r1 = dropWhile is_space (drop (length w1) s)
         in if w1 = [] then None
            else case r1 of [] \<Rightarrow> None
              | c # r2 \<Rightarrow>
                  if c \<noteq> opc then None
                  else
                    (let r3 = dropWhile is_space r2; w2 = takeWhile is_word r3
                     in if w2 = [] then None
                        else Some (w1, w2, length s - length r3 + length w2))))"

lemma dropWhile_le: "length (dropWhile P s) \<le> length s"
  by (induction s) auto

lemma match_binop_bound:
  assumes "match_binop opc pw s = Some (w1, w2, n)"
  shows "0 < n \<and> n \<le> length s"
proof -
  let ?w1 = "takeWhile is_word s"
  let ?r1 = "dropWhile is_space (drop (length ?w1) s)"
  from assms obtain c r2 where r1: "?r1 = c # r2" and w1: "?w1 \<noteq> []"
    by (auto simp: match_binop_def Let_def split: if_splits list.splits)
  let ?r3 = "dropWhile is_space r2"
  let ?w2 = "takeWhile is_word ?r3"
  from assms r1 have n: "n = length s - length ?r3 + length ?w2" and w2: "?w2 \<noteq> []"
    by (auto simp: match_binop_def Let_def split: if_splits)
  have "length ?r1 \<le> length s"
    using dropWhile_le [of is_space "drop (length ?w1) s"] by simp
  with r1 have a: "Suc (length r2) \<le> length s" by simp
  have b: "length ?r3 \<le> length r2" by (rule dropWhile_le)
  have c: "length ?w2 \<le> length ?r3" by (rule takeWhile_le)
  from w2 have d: "0 < length ?w2" by simp
  from n a b c d show ?thesis by arith
qed

text \<open>\<open>re.sub\<close> with the template \<open>name(\1,\2)\<close>: matches are replaced from left to right,
  the scan resuming after each match.\<close>

function sub_binop :: "char \<Rightarrow> string \<Rightarrow> bool \<Rightarrow> string \<Rightarrow> string" where
  "sub_binop opc name pw [] = []"
| "sub_binop opc name pw (c # cs) =
     (case match_binop opc pw (c # cs) of
        None \<Rightarrow> c # sub_binop opc name (is_word c) cs
      | Some (w1, w2, n) \<Rightarrow>
          name @ ''('' @ w1 @ '','' @ w2 @ '')'' @ sub_binop opc name True (drop n (c # cs)))"
  by pat_completeness auto
termination
  by (relation "measure (\<lambda>(opc, name, pw, s). length s)") (auto dest!: match_binop_bound)

definition macros :: "string list" where
  "macros =
    [''#define _OB_A(a,b) ((a)+(b))'',
     ''#define _OB_S(a,b) ((a)-(b))'',
     ''#define _OB_M(a,b) ((a)*(b))'',
     ''#define _OB_LT(a,b) ((a)<(b))'',
     ''#define _OB_GT(a,b) ((a)>(b))'',
     ''#define _OB_EQ(a,b) ((a)==(b))'',
     ''#define _OB_N(a) (!(a))'']"

definition rewrite_ops :: "string \<Rightarrow> string" where
  "rewrite_ops part =
     sub_binop (CHR ''*'') ''_OB_M'' False
       (sub_binop (CHR ''-'') ''_OB_S'' False
         (sub_binop (CHR ''+'') ''_OB_A'' False part))"

text \<open>The loop over the even indices of \<open>parts\<close>.\<close>

fun on_even :: "('a \<Rightarrow> 'a) \<Rightarrow> 'a list \<Rightarrow> 'a list" where
  "on_even f [] = []"
| "on_even f [x] = [f x]"
| "on_even f (x # y # rest) = f x # y # on_even f rest"

text \<open>\<open>next((i + 1 for i, l in enumerate(lines) if l.strip().startswith("#include")), 0)\<close>\<close>

fun find_insert_pos :: "nat \<Rightarrow> string list \<Rightarrow> nat" where
  "find_insert_pos i [] = 0"
| "find_insert_pos i (l # ls) =
     (if startswith (strip l) ''#include'' then i + 1 else find_insert_pos (i + 1) ls)"

definition list_insert :: "nat \<Rightarrow> 'a \<Rightarrow> 'a list \<Rightarrow> 'a list" where
  "list_insert pos x xs = take pos xs @ x # drop pos xs"

definition inject_macros :: "string \<Rightarrow> level \<Rightarrow> string" where
  "inject_macros src lvl =
     (if lvl = Mild then src
      else
        (let parts = on_even rewrite_ops (split_strings src);
             src' = concat parts;
             lines = split_lines src';
             insert_pos = find_insert_pos 0 lines
         in join_lines (fold (list_insert insert_pos) (rev macros) lines)))"

section \<open>Numeric obfuscation\<close>

text \<open>
  \<open>int(s)\<close> on a run of digits, and \<open>str\<close>, \<open>hex\<close>, \<open>oct\<close> and \<open>bit_length\<close> on integers.
  The interpreter converts between decimal strings and integers up to a limit on the number
  of digits, 4300 unless \<open>sys.set_int_max_str_digits\<close> has changed it: \<open>int\<close> raises
  \<open>ValueError\<close> on a longer run of digits, leading zeros counted.  \<open>str\<close> has the same limit;
  it is applied here to values that \<open>int\<close> has returned, or smaller ones, which are below it
  (\<open>int_of_digits_bound\<close>).
\<close>

definition digit_val :: "char \<Rightarrow> nat" where
  "digit_val c = codepoint c - 48"

definition max_str_digits :: nat where
  "max_str_digits = 4300"

definition int_of_digits :: "string \<Rightarrow> error + int" where
  "int_of_digits ds =
     (if max_str_digits < length ds then Inl ValueError
      else Inr (int (foldl (\<lambda>a c. 10 * a + digit_val c) 0 ds)))"

definition digit_char :: "nat \<Rightarrow> char" where
  "digit_char d = ''0123456789abcdef'' ! d"

function digits :: "nat \<Rightarrow> nat \<Rightarrow> string" where
  "digits b n = (if b < 2 \<or> n < b then [digit_char n] else digits b (n div b) @ [digit_char (n mod b)])"
  by pat_completeness auto
termination
  by (relation "measure (\<lambda>(b, n). n)") auto

definition str :: "int \<Rightarrow> string" where
  "str n = (if n < 0 then CHR ''-'' # digits 10 (nat (- n)) else digits 10 (nat n))"

definition hex :: "int \<Rightarrow> string" where
  "hex n = (if n < 0 then ''-0x'' @ digits 16 (nat (- n)) else ''0x'' @ digits 16 (nat n))"

definition oct :: "int \<Rightarrow> string" where
  "oct n = (if n < 0 then ''-0o'' @ digits 8 (nat (- n)) else ''0o'' @ digits 8 (nat n))"

function bit_length :: "nat \<Rightarrow> nat" where
  "bit_length n = (if n = 0 then 0 else 1 + bit_length (n div 2))"
  by pat_completeness auto
termination
  by (relation "measure id") auto

definition replace :: "string \<Rightarrow> rng \<Rightarrow> error + string \<times> rng" where
  "replace m r =
     (case int_of_digits m of
        Inl e \<Rightarrow> Inl e
      | Inr n \<Rightarrow>
          (let choices = [str n];
               choices = (if n \<ge> 0 then choices @ [hex n] else choices);
               choices = (if 0 < n \<and> n < 256
                          then choices @ [''0'' @ drop 2 (oct n)] @ [''(0xFF&'' @ hex n @ '')'']
                          else choices);
               (choices, r) =
                 (if n > 1 then
                    (let (a, r') = randint 1 (n - 1) r; b = n - a
                     in (choices @ [''('' @ str a @ ''+'' @ str b @ '')''], r'))
                  else (choices, r));
               choices = (if n > 0 \<and> n AND (n - 1) = 0
                          then choices @ [''(1<<'' @ str (int (bit_length (nat n)) - 1) @ '')'']
                          else choices)
           in Inr (choice choices r)))"

text \<open>\<open>\b(\d+)\b\<close> at a position whose previous character is a word character or not.\<close>

definition match_int :: "bool \<Rightarrow> string \<Rightarrow> nat option" where
  "match_int pw s =
     (if pw then None
      else
        (let d = takeWhile is_digit s
         in if d = [] then None
            else case drop (length d) s of
                   [] \<Rightarrow> Some (length d)
                 | c # _ \<Rightarrow> if is_word c then None else Some (length d)))"

lemma match_int_bound: "match_int pw s = Some n \<Longrightarrow> 0 < n \<and> n \<le> length s"
  using takeWhile_le [of is_digit s]
  by (auto simp: match_int_def Let_def split: if_splits list.splits)

text \<open>\<open>re.sub\<close> with the callback \<open>replace\<close>: an exception raised by the callback ends the
  substitution, and the whole pass, with that exception.\<close>

function sub_numbers :: "bool \<Rightarrow> string \<Rightarrow> rng \<Rightarrow> error + string \<times> rng" where
  "sub_numbers pw [] r = Inr ([], r)"
| "sub_numbers pw (c # cs) r =
     (case match_int pw (c # cs) of
        None \<Rightarrow>
          (case sub_numbers (is_word c) cs r of
             Inl e \<Rightarrow> Inl e
           | Inr (out, r') \<Rightarrow> Inr (c # out, r'))
      | Some n \<Rightarrow>
          (case replace (take n (c # cs)) r of
             Inl e \<Rightarrow> Inl e
           | Inr (rep, r1) \<Rightarrow>
               (case sub_numbers True (drop n (c # cs)) r1 of
                  Inl e \<Rightarrow> Inl e
                | Inr (out, r2) \<Rightarrow> Inr (rep @ out, r2))))"
  by pat_completeness auto
termination
  by (relation "measure (\<lambda>(pw, s, r). length s)") (auto dest!: match_int_bound)

fun on_even_rng ::
    "('a \<Rightarrow> rng \<Rightarrow> error + 'a \<times> rng) \<Rightarrow> 'a list \<Rightarrow> rng \<Rightarrow> error + 'a list \<times> rng" where
  "on_even_rng f [] r = Inr ([], r)"
| "on_even_rng f [x] r = (case f x r of Inl e \<Rightarrow> Inl e | Inr (x', r') \<Rightarrow> Inr ([x'], r'))"
| "on_even_rng f (x # y # rest) r =
     (case f x r of
        Inl e \<Rightarrow> Inl e
      | Inr (x', r1) \<Rightarrow>
          (case on_even_rng f rest r1 of
             Inl e \<Rightarrow> Inl e
           | Inr (rest', r2) \<Rightarrow> Inr (x' # y # rest', r2)))"

definition obfuscate_numbers :: "string \<Rightarrow> level \<Rightarrow> rng \<Rightarrow> error + string \<times> rng" where
  "obfuscate_numbers src lvl r =
     (if lvl \<noteq> Extreme then Inr (src, r)
      else
        (case on_even_rng (sub_numbers False) (split_strings src) r of
           Inl e \<Rightarrow> Inl e
         | Inr (parts, r') \<Rightarrow> Inr (concat parts, r')))"

section \<open>The pipeline\<close>

definition obfuscate :: "string \<Rightarrow> level \<Rightarrow> rng \<Rightarrow> error + (string \<times> mapping) \<times> rng" where
  "obfuscate src lvl r =
     (let tokens = tokenize src;
          tokens = strip_comments tokens
      in case rename_identifiers tokens lvl r of
           Inl e \<Rightarrow> Inl e
         | Inr ((tokens, mapping), r1) \<Rightarrow>
             (let tokens = compress_whitespace tokens lvl;
                  src = detokenize tokens;
                  src = flatten_code src lvl;
                  src = inject_macros src lvl
              in case obfuscate_numbers src lvl r1 of
                   Inl e \<Rightarrow> Inl e
                 | Inr (src, r2) \<Rightarrow> Inr ((src, mapping), r2)))"

subsection \<open>The whitespace loop, by the last token written\<close>

text \<open>The loop of \<open>compress_whitespace\<close> reads only the kind of the last element of
  \<open>result\<close>; \<open>compress_from\<close> is the same loop with that kind as its state, and \<open>ws_out\<close>
  the decision it takes at a whitespace token.\<close>

definition ws_out :: "level \<Rightarrow> kind option \<Rightarrow> kind option \<Rightarrow> string \<Rightarrow> string option" where
  "ws_out lvl prev nxt v =
     (if lvl = Mild \<or> lvl = Moderate then Some (if newline \<in> set v then [newline] else '' '')
      else if nxt = Some Preproc \<or> prev = Some Preproc then Some [newline]
      else if (prev = Some Ident \<or> prev = Some Number) \<and> (nxt = Some Ident \<or> nxt = Some Number)
      then Some '' '' else None)"

definition next_kind :: "token list \<Rightarrow> kind option" where
  "next_kind ts = (case ts of [] \<Rightarrow> None | t # _ \<Rightarrow> Some (fst t))"

definition last_kind :: "token list \<Rightarrow> kind option" where
  "last_kind ts = (if ts = [] then None else Some (fst (last ts)))"

fun compress_from :: "level \<Rightarrow> kind option \<Rightarrow> token list \<Rightarrow> token list" where
  "compress_from lvl prev [] = []"
| "compress_from lvl prev ((kind, v) # rest) =
     (if kind \<noteq> Ws then (kind, v) # compress_from lvl (Some kind) rest
      else case ws_out lvl prev (next_kind rest) v of
             None \<Rightarrow> compress_from lvl prev rest
           | Some w \<Rightarrow> (Ws, w) # compress_from lvl (Some Ws) rest)"

lemma compress_loop_ws:
  "compress_loop lvl result ((Ws, v) # rest) =
     (case ws_out lvl (last_kind result) (next_kind rest) v of
        None \<Rightarrow> compress_loop lvl result rest
      | Some w \<Rightarrow> compress_loop lvl (result @ [(Ws, w)]) rest)"
  by (simp add: ws_out_def last_kind_def next_kind_def Let_def)

lemma compress_loop_other:
  "kind \<noteq> Ws \<Longrightarrow>
   compress_loop lvl result ((kind, v) # rest) = compress_loop lvl (result @ [(kind, v)]) rest"
  by simp

lemma compress_loop_from:
  "compress_loop lvl result ts = result @ compress_from lvl (last_kind result) ts"
proof (induction ts arbitrary: result)
  case Nil
  show ?case by simp
next
  case (Cons t ts)
  obtain kind v where t: "t = (kind, v)" by (cases t)
  show ?case
  proof (cases "kind = Ws")
    case False
    have lk: "last_kind (result @ [(kind, v)]) = Some kind" by (simp add: last_kind_def)
    have "compress_loop lvl result (t # ts) = compress_loop lvl (result @ [(kind, v)]) ts"
      using False t by simp
    also have "\<dots> = (result @ [(kind, v)]) @ compress_from lvl (Some kind) ts"
      using Cons [of "result @ [(kind, v)]"] lk by simp
    also have "\<dots> = result @ compress_from lvl (last_kind result) (t # ts)"
      using False t by simp
    finally show ?thesis .
  next
    case True
    show ?thesis
    proof (cases "ws_out lvl (last_kind result) (next_kind ts) v")
      case None
      have "compress_loop lvl result (t # ts) = compress_loop lvl result ts"
        using True t None by (simp del: compress_loop.simps add: compress_loop_ws)
      also have "\<dots> = result @ compress_from lvl (last_kind result) ts"
        by (rule Cons)
      also have "\<dots> = result @ compress_from lvl (last_kind result) (t # ts)"
        using True t None by simp
      finally show ?thesis .
    next
      case (Some w)
      have lk: "last_kind (result @ [(Ws, w)]) = Some Ws" by (simp add: last_kind_def)
      have "compress_loop lvl result (t # ts) = compress_loop lvl (result @ [(Ws, w)]) ts"
        using True t Some by (simp del: compress_loop.simps add: compress_loop_ws)
      also have "\<dots> = (result @ [(Ws, w)]) @ compress_from lvl (Some Ws) ts"
        using Cons [of "result @ [(Ws, w)]"] lk by simp
      also have "\<dots> = result @ compress_from lvl (last_kind result) (t # ts)"
        using True t Some by simp
      finally show ?thesis .
    qed
  qed
qed

lemma compress_whitespace_from:
  "compress_whitespace ts lvl = compress_from lvl None ts"
  by (simp add: compress_whitespace_def compress_loop_from last_kind_def)

lemma next_kind_compress_from:
  "next_kind ts = Some k \<Longrightarrow> k \<noteq> Ws \<Longrightarrow> next_kind (compress_from lvl p ts) = Some k"
  by (cases ts) (auto simp: next_kind_def)

lemma ws_out_stable:
  assumes "ws_out lvl p (next_kind ts) v = Some w"
  shows "ws_out lvl p (next_kind (compress_from lvl q ts)) w = Some w"
proof (cases "lvl = Mild \<or> lvl = Moderate")
  case True
  with assms show ?thesis by (auto simp: ws_out_def split: if_splits)
next
  case False
  show ?thesis
  proof (cases "p = Some Preproc")
    case True
    with False assms show ?thesis by (auto simp: ws_out_def split: if_splits)
  next
    case np: False
    from assms False np obtain k where k: "next_kind ts = Some k" "k \<noteq> Ws"
      by (auto simp: ws_out_def split: if_splits)
    from next_kind_compress_from [OF k] have k': "next_kind (compress_from lvl q ts) = Some k" .
    from assms False np k have "(k = Preproc \<and> w = [newline])
        \<or> (k \<noteq> Preproc \<and> (p = Some Ident \<or> p = Some Number) \<and> (k = Ident \<or> k = Number) \<and> w = '' '')"
      by (auto simp: ws_out_def split: if_splits)
    with False np k' show ?thesis by (auto simp: ws_out_def)
  qed
qed

lemma compress_from_idem:
  "compress_from lvl p (compress_from lvl p ts) = compress_from lvl p ts"
proof (induction ts arbitrary: p)
  case Nil
  show ?case by simp
next
  case (Cons t ts)
  obtain kind v where t: "t = (kind, v)" by (cases t)
  show ?case
  proof (cases "kind = Ws")
    case False
    with t Cons [of "Some kind"] show ?thesis by simp
  next
    case True
    show ?thesis
    proof (cases "ws_out lvl p (next_kind ts) v")
      case None
      with True t Cons [of p] show ?thesis by simp
    next
      case (Some w)
      from ws_out_stable [OF Some, of "Some Ws"] Some True t Cons [of "Some Ws"]
      show ?thesis by simp
    qed
  qed
qed

subsection \<open>The name pool\<close>

lemma randbelow_less: "0 < n \<Longrightarrow> fst (randbelow n r) < n"
  by (cases r) (simp_all add: randbelow_def)

lemma shuffle_loop_keeps:
  "k < length x \<Longrightarrow>
   length (fst (shuffle_loop k x r)) = length x \<and> set (fst (shuffle_loop k x r)) \<subseteq> set x"
proof (induction k arbitrary: x r)
  case 0
  show ?case by simp
next
  case (Suc k)
  obtain j r' where j: "randbelow (Suc k + 1) r = (j, r')" by (cases "randbelow (Suc k + 1) r")
  have "fst (randbelow (Suc k + 1) r) < Suc k + 1" by (rule randbelow_less) simp
  with j Suc.prems have jl: "j < length x" by simp
  let ?y = "x[Suc k := x ! j, j := x ! Suc k]"
  have ly: "length ?y = length x" by simp
  have "set ?y \<subseteq> insert (x ! Suc k) (set (x[Suc k := x ! j]))"
    by (rule set_update_subset_insert)
  also have "\<dots> \<subseteq> insert (x ! Suc k) (insert (x ! j) (set x))"
    using set_update_subset_insert [of x "Suc k" "x ! j"] by blast
  also have "\<dots> \<subseteq> set x"
    using jl Suc.prems by simp
  finally have sy: "set ?y \<subseteq> set x" .
  from Suc.prems ly have "k < length ?y" by simp
  from Suc.IH [OF this, of r'] ly sy j show ?case
    by (simp add: Let_def) blast
qed

lemma shuffle_keeps:
  "length (fst (shuffle x r)) = length x \<and> set (fst (shuffle x r)) \<subseteq> set x"
proof (cases x)
  case Nil
  then show ?thesis by (simp add: shuffle_def)
next
  case (Cons a y)
  then have "length x - 1 < length x" by simp
  from shuffle_loop_keeps [OF this] show ?thesis by (simp add: shuffle_def)
qed

definition extension :: "string \<Rightarrow> bool" where
  "extension n = (\<exists>a\<in>set CONFUSING. \<exists>b. n = a @ [b] \<and> b \<in> set ''_01'')"

lemma choice_mem: "seq \<noteq> [] \<Longrightarrow> fst (choice seq r) \<in> set seq"
proof -
  assume "seq \<noteq> []"
  then have "fst (randbelow (length seq) r) < length seq" by (intro randbelow_less) simp
  then show ?thesis by (auto simp: choice_def split: prod.splits)
qed

lemma choice_suffix:
  "fst (choice [''_'', ''0'', ''1''] r) \<in> {''_'', ''0'', ''1''}"
  using choice_mem [of "[''_'', ''0'', ''1'']" r] by simp

lemma extend_pool_keeps:
  "length pool \<le> length (fst (extend_pool count pool r))
   \<and> count \<le> length (fst (extend_pool count pool r))
   \<and> set (fst (extend_pool count pool r)) \<subseteq> set pool \<union> {n. extension n}"
proof (induction count pool r rule: extend_pool.induct)
  case (1 count pool r)
  show ?case
  proof (cases "length pool < count")
    case False
    then show ?thesis by (simp add: extend_pool.simps [of count pool r])
  next
    case True
    obtain a r1 where a: "choice CONFUSING r = (a, r1)" by (cases "choice CONFUSING r")
    obtain b r2 where b: "choice [''_'', ''0'', ''1''] r1 = (b, r2)"
      by (cases "choice [''_'', ''0'', ''1''] r1")
    from choice_suffix [of r1] b have "b \<in> {''_'', ''0'', ''1''}" by simp
    moreover from choice_mem [of CONFUSING r] a have "a \<in> set CONFUSING"
      by (simp add: CONFUSING_def)
    ultimately have ext: "extension (a @ b)" by (auto simp: extension_def)
    have eq: "extend_pool count pool r = extend_pool count (pool @ [a @ b]) r2"
      using True a b by (simp add: extend_pool.simps [of count pool r])
    from "1.IH" [OF True a [symmetric] refl b [symmetric] refl] ext show ?thesis
      unfolding eq by auto
  qed
qed

definition pool_size :: "level \<Rightarrow> nat \<Rightarrow> nat" where
  "pool_size lvl count = (case lvl of Mild \<Rightarrow> 66 | Moderate \<Rightarrow> 78 | Extreme \<Rightarrow> max 48 count)"

lemma length_CONFUSING: "length CONFUSING = 48"
  by (simp add: CONFUSING_def)

lemma length_base_pool:
  "lvl \<noteq> Extreme \<Longrightarrow> length (fst (base_pool count lvl r)) = pool_size lvl count"
  by (cases lvl) (simp_all add: base_pool_def pool_size_def)

lemma length_base_pool_extreme:
  "count \<le> length (fst (base_pool count Extreme r))"
  using extend_pool_keeps [of CONFUSING count r] by (simp add: base_pool_def)

lemma length_generate_names:
  "length (fst (generate_names count lvl r))
     = min count (length (fst (base_pool count lvl r)))"
proof -
  obtain pool r1 where p: "base_pool count lvl r = (pool, r1)" by (cases "base_pool count lvl r")
  obtain pool' r2 where s: "shuffle pool r1 = (pool', r2)" by (cases "shuffle pool r1")
  from shuffle_keeps [of pool r1] s have "length pool' = length pool" by simp
  with p s show ?thesis by (simp add: generate_names_def min.commute)
qed

lemma set_generate_names:
  "set (fst (generate_names count lvl r)) \<subseteq> set (fst (base_pool count lvl r))"
proof -
  obtain pool r1 where p: "base_pool count lvl r = (pool, r1)" by (cases "base_pool count lvl r")
  obtain pool' r2 where s: "shuffle pool r1 = (pool', r2)" by (cases "shuffle pool r1")
  from shuffle_keeps [of pool r1] s have "set pool' \<subseteq> set pool" by simp
  moreover have "set (take count pool') \<subseteq> set pool'" by (rule set_take_subset)
  ultimately show ?thesis using p s by (simp add: generate_names_def)
qed


subsection \<open>Generated names and the reserved set\<close>

lemma mild_pool_unreserved: "list_all (\<lambda>n. n \<notin> RESERVED) (fst (base_pool 0 Mild []))"
  by code_simp

lemma moderate_pool_unreserved: "list_all (\<lambda>n. n \<notin> RESERVED) (fst (base_pool 0 Moderate []))"
  by code_simp

lemma confusing_unreserved: "list_all (\<lambda>n. n \<notin> RESERVED) CONFUSING"
  by code_simp

lemma reserved_last: "\<forall>w\<in>RESERVED. w \<noteq> [] \<and> last w \<notin> set ''_01''"
  by (simp add: RESERVED_def)

lemma extension_unreserved: "extension n \<Longrightarrow> n \<notin> RESERVED"
  using reserved_last by (auto simp: extension_def)

lemma base_pool_unreserved: "n \<in> set (fst (base_pool count lvl r)) \<Longrightarrow> n \<notin> RESERVED"
proof (cases lvl)
  case Mild
  then have "fst (base_pool count lvl r) = fst (base_pool 0 Mild [])"
    by (simp add: base_pool_def)
  moreover assume "n \<in> set (fst (base_pool count lvl r))"
  ultimately show ?thesis using mild_pool_unreserved by (simp add: list_all_iff)
next
  case Moderate
  then have "fst (base_pool count lvl r) = fst (base_pool 0 Moderate [])"
    by (simp add: base_pool_def)
  moreover assume "n \<in> set (fst (base_pool count lvl r))"
  ultimately show ?thesis using moderate_pool_unreserved by (simp add: list_all_iff)
next
  case Extreme
  assume "n \<in> set (fst (base_pool count lvl r))"
  with Extreme extend_pool_keeps [of CONFUSING count r]
  have "n \<in> set CONFUSING \<or> extension n" by (auto simp: base_pool_def)
  then show ?thesis
    using confusing_unreserved extension_unreserved by (auto simp: list_all_iff)
qed

lemma generated_unreserved: "n \<in> set (fst (generate_names count lvl r)) \<Longrightarrow> n \<notin> RESERVED"
  using set_generate_names [of count lvl r] base_pool_unreserved by blast

subsection \<open>The tally\<close>

definition renameable :: "token list \<Rightarrow> string set" where
  "renameable tokens = set (map snd (filter (\<lambda>(k, v). k = Ident \<and> v \<notin> RESERVED) tokens))"

lemma keys_bump:
  "map fst (bump v f) = (if v \<in> set (map fst f) then map fst f else map fst f @ [v])"
  by (induction v f rule: bump.induct) auto

lemma tally_append: "tally (xs @ ys) f = tally ys (tally xs f)"
  by (induction xs f rule: tally.induct) simp_all

lemma tally_snoc:
  "tally (ts @ [(k, v)]) [] =
     (if k = Ident \<and> v \<notin> RESERVED then bump v (tally ts []) else tally ts [])"
  by (simp add: tally_append)

lemma renameable_snoc:
  "renameable (ts @ [(k, v)]) =
     (if k = Ident \<and> v \<notin> RESERVED then insert v (renameable ts) else renameable ts)"
  by (auto simp: renameable_def)

lemma set_keys_bump: "fst ` set (bump v f) = insert v (fst ` set f)"
  by (induction v f rule: bump.induct) auto

lemma distinct_keys_bump: "distinct (map fst (bump v f)) = distinct (map fst f)"
  by (simp add: keys_bump)

lemma keys_tally:
  "distinct (map fst (tally ts [])) \<and> fst ` set (tally ts []) = renameable ts"
proof (induction ts rule: rev_induct)
  case Nil
  show ?case by (simp add: renameable_def)
next
  case (snoc t ts)
  obtain k v where t: "t = (k, v)" by (cases t)
  show ?case
  proof (cases "k = Ident \<and> v \<notin> RESERVED")
    case True
    with snoc show ?thesis
      unfolding t tally_snoc renameable_snoc
      by (simp add: distinct_keys_bump set_keys_bump)
  next
    case False
    with snoc show ?thesis
      unfolding t tally_snoc renameable_snoc by auto
  qed
qed

lemma length_tally: "length (tally ts []) = card (renameable ts)"
proof -
  have "card (set (map fst (tally ts []))) = length (map fst (tally ts []))"
    by (rule distinct_card) (simp add: keys_tally)
  with keys_tally [of ts] show ?thesis by simp
qed

lemma rename_fails_iff:
  "(rename_identifiers tokens lvl r = Inl IndexError)
     = (length (fst (base_pool (card (renameable tokens)) lvl r)) < card (renameable tokens))"
proof -
  let ?n = "card (renameable tokens)"
  obtain names r' where g: "generate_names ?n lvl r = (names, r')"
    by (cases "generate_names ?n lvl r")
  from length_generate_names [of ?n lvl r] g
  have "length names = min ?n (length (fst (base_pool ?n lvl r)))" by simp
  with g show ?thesis
    by (auto simp: rename_identifiers_def Let_def build_mapping_def length_tally)
qed

lemma rename_error: "rename_identifiers tokens lvl r = Inl e \<Longrightarrow> e = IndexError"
  by (auto simp: rename_identifiers_def Let_def build_mapping_def
           split: prod.splits sum.splits if_splits)

lemma rename_extreme_total: "\<exists>res. rename_identifiers tokens Extreme r = Inr res"
proof -
  have "rename_identifiers tokens Extreme r \<noteq> Inl IndexError"
    using length_base_pool_extreme [of "card (renameable tokens)" r]
    by (simp add: rename_fails_iff)
  with rename_error [of tokens Extreme r] show ?thesis
    by (cases "rename_identifiers tokens Extreme r") auto
qed

lemma rename_mapping:
  assumes "rename_identifiers tokens lvl r = Inr ((toks', m), r')"
  shows "m = zip (map fst (sort_key (\<lambda>(k, c). - int c) (tally tokens [])))
                 (fst (generate_names (card (renameable tokens)) lvl r))
         \<and> length (fst (generate_names (card (renameable tokens)) lvl r)) = card (renameable tokens)
         \<and> length m = card (renameable tokens)"
proof -
  let ?n = "card (renameable tokens)"
  obtain names r'' where g: "generate_names ?n lvl r = (names, r'')"
    by (cases "generate_names ?n lvl r")
  from length_generate_names [of ?n lvl r] g have "length names \<le> ?n" by simp
  with assms g show ?thesis
    by (auto simp: rename_identifiers_def Let_def build_mapping_def length_tally
             split: if_splits)
qed

subsection \<open>Order of the sorted identifiers\<close>

text \<open>\<open>before l a b\<close>: some occurrence of \<open>a\<close> in \<open>l\<close> has an occurrence of \<open>b\<close> after it.\<close>

fun before :: "'a list \<Rightarrow> 'a \<Rightarrow> 'a \<Rightarrow> bool" where
  "before [] a b = False"
| "before (x # l) a b = ((x = a \<and> b \<in> set l) \<or> before l a b)"

lemma before_mem: "before l a b \<Longrightarrow> a \<in> set l \<and> b \<in> set l"
  by (induction l) auto

lemma before_append:
  "before (l1 @ l2) a b = (before l1 a b \<or> before l2 a b \<or> (a \<in> set l1 \<and> b \<in> set l2))"
  by (induction l1) (auto dest: before_mem)

lemma before_filter: "before (filter P l) a b \<Longrightarrow> before l a b"
  by (induction l) (auto split: if_splits)

lemma before_filter_keep: "before l a b \<Longrightarrow> P a \<Longrightarrow> P b \<Longrightarrow> before (filter P l) a b"
  by (induction l) auto

lemma before_map: "before l x y \<Longrightarrow> before (map f l) (f x) (f y)"
  by (induction l) auto

lemma before_asym: "distinct l \<Longrightarrow> before l a b \<Longrightarrow> \<not> before l b a"
  by (induction l) (auto dest: before_mem)

lemma before_total: "a \<in> set l \<Longrightarrow> b \<in> set l \<Longrightarrow> a \<noteq> b \<Longrightarrow> before l a b \<or> before l b a"
  by (induction l) auto

lemma before_sorted: "sorted (map f l) \<Longrightarrow> before l a b \<Longrightarrow> f a \<le> f b"
  by (induction l) auto

lemma before_nth: "before l a b \<Longrightarrow> \<exists>i j. i < j \<and> j < length l \<and> l ! i = a \<and> l ! j = b"
proof (induction l)
  case Nil
  then show ?case by simp
next
  case (Cons x l)
  from Cons.prems have "(x = a \<and> b \<in> set l) \<or> before l a b" by simp
  then show ?case
  proof
    assume h: "x = a \<and> b \<in> set l"
    then obtain j where "j < length l" "l ! j = b" by (auto simp: in_set_conv_nth)
    with h have "0 < Suc j \<and> Suc j < length (x # l) \<and> (x # l) ! 0 = a \<and> (x # l) ! Suc j = b"
      by simp
    then show ?thesis by blast
  next
    assume "before l a b"
    from Cons.IH [OF this] obtain i j where "i < j" "j < length l" "l ! i = a" "l ! j = b"
      by blast
    then have "Suc i < Suc j \<and> Suc j < length (x # l) \<and> (x # l) ! Suc i = a \<and> (x # l) ! Suc j = b"
      by simp
    then show ?thesis by blast
  qed
qed

text \<open>How often an identifier occurs in the stream, and where it occurs first.\<close>

definition occurrences :: "token list \<Rightarrow> string \<Rightarrow> nat" where
  "occurrences tokens a = length (filter (\<lambda>t. t = (Ident, a)) tokens)"

definition first_seen :: "token list \<Rightarrow> string \<Rightarrow> nat" where
  "first_seen tokens a = length (takeWhile (\<lambda>t. t \<noteq> (Ident, a)) tokens)"

definition outranks :: "token list \<Rightarrow> string \<Rightarrow> string \<Rightarrow> bool" where
  "outranks tokens a b =
     (occurrences tokens b < occurrences tokens a
      \<or> (occurrences tokens a = occurrences tokens b \<and> first_seen tokens a < first_seen tokens b))"

lemma renameable_iff: "a \<in> renameable ts = ((Ident, a) \<in> set ts \<and> a \<notin> RESERVED)"
  by (force simp: renameable_def)

lemma map_of_bump:
  "map_of (bump v f) = (map_of f)(v \<mapsto> (case map_of f v of None \<Rightarrow> 1 | Some c \<Rightarrow> c + 1))"
  by (induction v f rule: bump.induct) (auto simp: fun_eq_iff)

lemma map_of_tally:
  "map_of (tally ts []) a = (if a \<in> renameable ts then Some (occurrences ts a) else None)"
proof (induction ts arbitrary: a rule: rev_induct)
  case Nil
  show ?case by (simp add: renameable_def)
next
  case (snoc t ts)
  obtain k v where t: "t = (k, v)" by (cases t)
  show ?case
  proof (cases "k = Ident \<and> v \<notin> RESERVED")
    case True
    have "occurrences ts v = 0" if "v \<notin> renameable ts"
      using that True by (auto simp: occurrences_def renameable_iff filter_empty_conv)
    with True snoc show ?thesis
      unfolding t tally_snoc renameable_snoc
      by (auto simp: map_of_bump occurrences_def renameable_iff)
  next
    case False
    with snoc show ?thesis
      unfolding t tally_snoc renameable_snoc by (auto simp: occurrences_def renameable_iff)
  qed
qed

lemma tally_count: "(a, c) \<in> set (tally ts []) \<Longrightarrow> c = occurrences ts a \<and> a \<in> renameable ts"
proof -
  assume h: "(a, c) \<in> set (tally ts [])"
  have "distinct (map fst (tally ts []))" by (simp add: keys_tally)
  with h have "map_of (tally ts []) a = Some c" by simp
  then show ?thesis by (simp add: map_of_tally split: if_splits)
qed

lemma first_seen_snoc:
  "first_seen (ts @ [t]) a =
     (if (Ident, a) \<in> set ts then first_seen ts a
      else if t = (Ident, a) then length ts else length ts + 1)"
proof (cases "(Ident, a) \<in> set ts")
  case True
  then have "takeWhile (\<lambda>t. t \<noteq> (Ident, a)) (ts @ [t]) = takeWhile (\<lambda>t. t \<noteq> (Ident, a)) ts"
    by (intro takeWhile_append1) simp_all
  with True show ?thesis by (simp add: first_seen_def)
next
  case False
  then have "takeWhile (\<lambda>t. t \<noteq> (Ident, a)) (ts @ [t]) = ts @ takeWhile (\<lambda>t. t \<noteq> (Ident, a)) [t]"
    by (intro takeWhile_append2) auto
  with False show ?thesis by (simp add: first_seen_def)
qed

lemma first_seen_less: "(Ident, a) \<in> set ts \<Longrightarrow> first_seen ts a < length ts"
proof -
  assume h: "(Ident, a) \<in> set ts"
  have "length (takeWhile (\<lambda>t. t \<noteq> (Ident, a)) ts) \<le> length ts"
    by (rule length_takeWhile_le)
  moreover have "length (takeWhile (\<lambda>t. t \<noteq> (Ident, a)) ts) \<noteq> length ts"
  proof
    assume "length (takeWhile (\<lambda>t. t \<noteq> (Ident, a)) ts) = length ts"
    then have "takeWhile (\<lambda>t. t \<noteq> (Ident, a)) ts = ts"
      by (metis takeWhile_eq_take take_all order_refl)
    then have "\<forall>x\<in>set ts. x \<noteq> (Ident, a)" by (simp only: takeWhile_eq_all_conv)
    with h show False by blast
  qed
  ultimately show ?thesis by (simp add: first_seen_def)
qed

lemma before_tally:
  "before (map fst (tally ts [])) a b \<Longrightarrow> first_seen ts a < first_seen ts b"
proof (induction ts rule: rev_induct)
  case Nil
  then show ?case by simp
next
  case (snoc t ts)
  obtain k v where t: "t = (k, v)" by (cases t)
  let ?keys = "map fst (tally ts [])"
  have keys: "set ?keys = renameable ts" "fst ` set (tally ts []) = renameable ts"
    using keys_tally [of ts] by simp_all
  show ?case
  proof (cases "k = Ident \<and> v \<notin> RESERVED \<and> v \<notin> renameable ts")
    case True
    with snoc.prems have "before (?keys @ [v]) a b"
      unfolding t tally_snoc by (simp add: keys_bump keys)
    then have "before ?keys a b \<or> (a \<in> set ?keys \<and> b = v)"
      by (auto simp: before_append)
    then show ?thesis
    proof
      assume h: "before ?keys a b"
      from before_mem [OF h] keys have "(Ident, a) \<in> set ts" "(Ident, b) \<in> set ts"
        by (auto simp: renameable_iff)
      with snoc.IH [OF h] show ?thesis by (simp add: first_seen_snoc)
    next
      assume h: "a \<in> set ?keys \<and> b = v"
      with keys have a: "(Ident, a) \<in> set ts" by (auto simp: renameable_iff)
      from True have "(Ident, v) \<notin> set ts" by (auto simp: renameable_iff)
      with a h first_seen_less [OF a] True show ?thesis
        unfolding t by (simp add: first_seen_snoc)
    qed
  next
    case False
    with snoc.prems have h: "before ?keys a b"
      unfolding t tally_snoc by (auto simp: keys_bump keys split: if_splits)
    from before_mem [OF h] keys have "(Ident, a) \<in> set ts" "(Ident, b) \<in> set ts"
      by (auto simp: renameable_iff)
    with snoc.IH [OF h] show ?thesis by (simp add: first_seen_snoc)
  qed
qed

lemma sorted_idents_order:
  assumes a: "a \<in> renameable ts" and b: "b \<in> renameable ts" and o: "outranks ts a b"
  shows "before (sort_key (\<lambda>(k, c). - int c) (tally ts []))
           (a, occurrences ts a) (b, occurrences ts b)"
proof -
  let ?f = "\<lambda>(k, c). - int (c::nat)"
  let ?T = "tally ts []"
  let ?s = "sort_key ?f ?T"
  let ?ea = "(a, occurrences ts a)" and ?eb = "(b, occurrences ts b)"
  have dk: "distinct (map fst ?T)" by (simp add: keys_tally)
  then have dT: "distinct ?T" by (rule distinct_map [THEN iffD1, THEN conjunct1])
  from a dk have ea: "?ea \<in> set ?T"
    using map_of_tally [of ts a] by simp
  from b dk have eb: "?eb \<in> set ?T"
    using map_of_tally [of ts b] by simp
  from o have ne: "a \<noteq> b" by (auto simp: outranks_def)
  show ?thesis
  proof (rule ccontr)
    assume n: "\<not> before ?s ?ea ?eb"
    from ea eb ne before_total [of ?ea ?s ?eb] n have ba: "before ?s ?eb ?ea" by auto
    have "sorted (map ?f ?s)" by (rule sorted_sort_key)
    from before_sorted [OF this ba] have le: "occurrences ts a \<le> occurrences ts b" by simp
    with o have eq: "occurrences ts a = occurrences ts b"
      and fs: "first_seen ts a < first_seen ts b"
      by (auto simp: outranks_def)
    let ?P = "\<lambda>y. ?f y = - int (occurrences ts a)"
    have "before (filter ?P ?s) ?eb ?ea"
      by (rule before_filter_keep [OF ba]) (simp_all add: eq)
    then have "before (filter ?P ?T) ?eb ?ea" by (simp only: sort_key_stable)
    then have "before ?T ?eb ?ea" by (rule before_filter)
    from before_map [OF this, of fst] have "before (map fst ?T) b a" by simp
    from before_tally [OF this] fs show False by simp
  qed
qed

lemma obfuscate_rename_fails:
  "rename_identifiers (strip_comments (tokenize src)) lvl r = Inl e
   \<Longrightarrow> obfuscate src lvl r = Inl e"
  by (simp add: obfuscate_def)

section \<open>Directive lines\<close>

text \<open>
  A line is in order when it is empty, starts with \<open>#\<close>, or holds no \<open>#\<close>.  A text is read
  character by character by an automaton that knows whether it is at the start of a line, in
  a line that started with \<open>#\<close>, or in another line; it goes \<open>Bad\<close> at a \<open>#\<close> inside a line
  that did not start with one.
\<close>

definition line_ok :: "string \<Rightarrow> bool" where
  "line_ok l = (case l of [] \<Rightarrow> True | c # cs \<Rightarrow> c = hash \<or> hash \<notin> set l)"

definition lines_ok :: "string \<Rightarrow> bool" where
  "lines_ok s = list_all line_ok (split_lines s)"

datatype lstate = Bol | Dir | Code | Bad

fun step :: "lstate \<Rightarrow> char \<Rightarrow> lstate" where
  "step Bad c = Bad"
| "step Bol c = (if c = newline then Bol else if c = hash then Dir else Code)"
| "step Dir c = (if c = newline then Bol else Dir)"
| "step Code c = (if c = newline then Bol else if c = hash then Bad else Code)"

definition run :: "lstate \<Rightarrow> string \<Rightarrow> lstate" where
  "run st s = foldl step st s"

lemma run_Nil [simp]: "run st [] = st"
  by (simp add: run_def)

lemma run_Cons [simp]: "run st (c # cs) = run (step st c) cs"
  by (simp add: run_def)

lemma run_append: "run st (a @ b) = run (run st a) b"
  by (simp add: run_def)

lemma run_Bad [simp]: "run Bad s = Bad"
  by (induction s) simp_all

lemma split_lines_ne [simp]: "split_lines s \<noteq> []"
  by (induction s) (simp_all add: Let_def)

lemma split_lines_no_newline: "l \<in> set (split_lines s) \<Longrightarrow> newline \<notin> set l"
proof (induction s arbitrary: l)
  case Nil
  then show ?case by simp
next
  case (Cons c cs)
  obtain h t where r: "split_lines cs = h # t" by (cases "split_lines cs") simp_all
  with Cons show ?case by (auto simp: Let_def split: if_splits)
qed

definition head_ok :: "lstate \<Rightarrow> string \<Rightarrow> bool" where
  "head_ok st l = (case st of Bol \<Rightarrow> line_ok l | Dir \<Rightarrow> True | Code \<Rightarrow> hash \<notin> set l | Bad \<Rightarrow> False)"

lemma run_lines:
  "(run st s \<noteq> Bad) = (head_ok st (hd (split_lines s)) \<and> list_all line_ok (tl (split_lines s)))"
proof (induction s arbitrary: st)
  case Nil
  show ?case by (cases st) (simp_all add: head_ok_def line_ok_def)
next
  case (Cons c cs)
  obtain h t where r: "split_lines cs = h # t" by (cases "split_lines cs") simp_all
  show ?case
  proof (cases "c = newline")
    case True
    with r Cons [of Bol] show ?thesis
      by (cases st) (simp_all add: head_ok_def line_ok_def Let_def)
  next
    case False
    with r Cons [of "step st c"] show ?thesis
      by (cases st) (auto simp: head_ok_def line_ok_def Let_def)
  qed
qed

lemma lines_ok_run: "lines_ok s = (run Bol s \<noteq> Bad)"
proof -
  obtain h t where r: "split_lines s = h # t" by (cases "split_lines s") simp_all
  then show ?thesis by (simp add: run_lines lines_ok_def head_ok_def)
qed

text \<open>The states are ordered by what they accept afterwards.\<close>

fun rank :: "lstate \<Rightarrow> nat" where
  "rank Bad = 0" | "rank Code = 1" | "rank Bol = 2" | "rank Dir = 3"

definition le :: "lstate \<Rightarrow> lstate \<Rightarrow> bool" where
  "le a b = (rank a \<le> rank b)"

lemma le_refl [simp]: "le a a"
  by (simp add: le_def)

lemma le_trans: "le a b \<Longrightarrow> le b c \<Longrightarrow> le a c"
  by (simp add: le_def)

lemma le_Bad: "le a Bad \<Longrightarrow> a = Bad"
  by (cases a) (simp_all add: le_def)

lemma step_mono: "le a b \<Longrightarrow> le (step a c) (step b c)"
  by (cases a; cases b) (simp_all add: le_def)

lemma run_mono: "le a b \<Longrightarrow> le (run a s) (run b s)"
  by (induction s arbitrary: a b) (simp_all add: step_mono)

lemma run_no_hash: "hash \<notin> set s \<Longrightarrow> st \<noteq> Bad \<Longrightarrow> run st s \<noteq> Bad"
proof (induction s arbitrary: st)
  case Nil
  then show ?case by simp
next
  case (Cons c cs)
  then have "step st c \<noteq> Bad" by (cases st) auto
  with Cons show ?case by simp
qed

lemma run_Dir_from: "hash \<notin> set s \<Longrightarrow> run st s = Dir \<Longrightarrow> st = Dir"
proof (induction s arbitrary: st)
  case Nil
  then show ?case by simp
next
  case (Cons c cs)
  then have "step st c = Dir" by simp
  with Cons.prems show ?case by (cases st) (auto split: if_splits)
qed

lemma run_not_Bol: "s \<noteq> [] \<Longrightarrow> last s \<noteq> newline \<Longrightarrow> run st s \<noteq> Bol"
proof (induction s rule: rev_induct)
  case Nil
  then show ?case by simp
next
  case (snoc c s)
  then show ?case by (cases "run st s") (simp_all add: run_append)
qed

text \<open>A plain text has no \<open>#\<close> and no newline and is not empty.\<close>

definition plain :: "string \<Rightarrow> bool" where
  "plain s = (s \<noteq> [] \<and> hash \<notin> set s \<and> newline \<notin> set s)"

lemma run_plain: "plain s \<Longrightarrow> run st s = (case st of Bad \<Rightarrow> Bad | Dir \<Rightarrow> Dir | _ \<Rightarrow> Code)"
proof (induction s arbitrary: st rule: rev_induct)
  case Nil
  then show ?case by (simp add: plain_def)
next
  case (snoc c s)
  show ?case
  proof (cases "s = []")
    case True
    with snoc.prems show ?thesis by (cases st) (auto simp: plain_def)
  next
    case False
    with snoc.prems have "plain s" by (simp add: plain_def)
    from snoc.IH [OF this, of st] snoc.prems show ?thesis
      by (cases st) (auto simp: plain_def run_append)
  qed
qed

text \<open>Replacing a segment without \<open>#\<close> that does not end a line by a plain one.\<close>

lemma replace_segment:
  assumes "le st0 st" and "hash \<notin> set seg" and "seg \<noteq> []" and "last seg \<noteq> newline"
      and "plain seg'"
  shows "le (run st0 seg) (run st seg')"
proof (cases "st0 = Bad")
  case True
  then show ?thesis by (simp add: le_def)
next
  case False
  with assms(1) have st: "st \<noteq> Bad" by (cases st0; cases st) (simp_all add: le_def)
  from run_no_hash [OF assms(2) False] have a: "run st0 seg \<noteq> Bad" .
  from run_not_Bol [OF assms(3,4)] have b: "run st0 seg \<noteq> Bol" .
  show ?thesis
  proof (cases "run st0 seg")
    case Dir
    from run_Dir_from [OF assms(2) Dir] assms(1) have "st = Dir"
      by (cases st) (simp_all add: le_def)
    with Dir run_plain [OF assms(5), of st] show ?thesis by simp
  next
    case Code
    with st run_plain [OF assms(5), of st] show ?thesis by (cases st) (simp_all add: le_def)
  qed (use a b in simp_all)
qed

subsection \<open>The text passes keep directive lines in order\<close>

lemma word_not_hash: "is_word c \<Longrightarrow> c \<noteq> hash \<and> c \<noteq> newline"
  by (auto simp: is_word_def is_ascii_letter_def is_digit_def codepoint_def)

lemma space_not_hash: "is_space c \<Longrightarrow> c \<noteq> hash"
  by (auto simp: is_space_def codepoint_def)

lemma digit_word: "is_digit c \<Longrightarrow> is_word c"
  by (simp add: is_word_def)

lemma match_binop_shape:
  assumes "match_binop opc pw s = Some (w1, w2, n)"
  shows "\<exists>ws1 ws2. take n s = w1 @ ws1 @ [opc] @ ws2 @ w2 \<and> w1 \<noteq> [] \<and> w2 \<noteq> []
           \<and> (\<forall>c\<in>set w1. is_word c) \<and> (\<forall>c\<in>set w2. is_word c)
           \<and> (\<forall>c\<in>set ws1. is_space c) \<and> (\<forall>c\<in>set ws2. is_space c)"
proof -
  let ?w1 = "takeWhile is_word s"
  let ?t1 = "dropWhile is_word s"
  let ?ws1 = "takeWhile is_space ?t1"
  let ?r1 = "dropWhile is_space ?t1"
  have d1: "drop (length ?w1) s = ?t1" by (simp add: dropWhile_eq_drop)
  from assms obtain c r2 where r1: "?r1 = c # r2" and w1: "?w1 \<noteq> []" and w1e: "w1 = ?w1"
    by (auto simp: match_binop_def Let_def d1 split: if_splits list.splits)
  let ?ws2 = "takeWhile is_space r2"
  let ?r3 = "dropWhile is_space r2"
  let ?w2 = "takeWhile is_word ?r3"
  let ?r4 = "dropWhile is_word ?r3"
  from assms r1 have c: "c = opc" and w2: "?w2 \<noteq> []" and w2e: "w2 = ?w2"
    and n: "n = length s - length ?r3 + length ?w2"
    by (auto simp: match_binop_def Let_def d1 split: if_splits)
  have s1: "s = ?w1 @ ?t1" by simp
  have s2: "?t1 = ?ws1 @ ?r1" by simp
  have s3: "r2 = ?ws2 @ ?r3" by simp
  have s4: "?r3 = ?w2 @ ?r4" by simp
  let ?pre = "?w1 @ ?ws1 @ [opc] @ ?ws2"
  have s: "s = ?pre @ ?r3"
    using s1 s2 r1 c s3 by (metis append.assoc append_Cons append_Nil)
  then have "length s = length ?pre + length ?r3" by (metis length_append)
  with n have n': "n = length (?pre @ ?w2)" by simp
  have "s = (?pre @ ?w2) @ ?r4" using s s4 by (metis append.assoc)
  then have "take n s = ?pre @ ?w2" unfolding n' by (metis append_eq_conv_conj)
  then have "take n s = w1 @ ?ws1 @ [opc] @ ?ws2 @ w2" by (simp add: w1e w2e)
  moreover have "\<forall>c\<in>set ?w1. is_word c" "\<forall>c\<in>set ?w2. is_word c"
    "\<forall>c\<in>set ?ws1. is_space c" "\<forall>c\<in>set ?ws2. is_space c"
    by (auto dest: set_takeWhileD)
  ultimately show ?thesis using w1 w2 w1e w2e by blast
qed

definition safe :: "string \<Rightarrow> bool" where
  "safe s = (hash \<notin> set s \<and> newline \<notin> set s)"

lemma plain_safe: "plain s = (s \<noteq> [] \<and> safe s)"
  by (auto simp: plain_def safe_def)

lemma safe_append [simp]: "safe (a @ b) = (safe a \<and> safe b)"
  by (auto simp: safe_def)

lemma safe_word: "\<forall>c\<in>set w. is_word c \<Longrightarrow> safe w"
  using word_not_hash by (auto simp: safe_def)

lemma no_hash_word: "\<forall>c\<in>set w. is_word c \<Longrightarrow> hash \<notin> set w"
  using word_not_hash by blast

lemma no_hash_space: "\<forall>c\<in>set w. is_space c \<Longrightarrow> hash \<notin> set w"
  using space_not_hash by blast

lemma sub_binop_le:
  "opc \<noteq> hash \<Longrightarrow> safe name \<Longrightarrow> le st0 st
   \<Longrightarrow> le (run st0 s) (run st (sub_binop opc name pw s))"
proof (induction opc name pw s arbitrary: st0 st rule: sub_binop.induct)
  case (1 opc name pw)
  then show ?case by simp
next
  case (2 opc name pw c cs)
  show ?case
  proof (cases "match_binop opc pw (c # cs)")
    case None
    from "2.prems"(3) have "le (step st0 c) (step st c)" by (rule step_mono)
    from "2.IH"(1) [OF None "2.prems"(1,2) this] None show ?thesis by simp
  next
    case (Some x)
    obtain w1 y where x: "x = (w1, y)" by (cases x)
    obtain w2 n where y: "y = (w2, n)" by (cases y)
    from Some x y have m: "match_binop opc pw (c # cs) = Some (w1, w2, n)" by simp
    from match_binop_shape [OF m] obtain ws1 ws2 where
      seg: "take n (c # cs) = w1 @ ws1 @ [opc] @ ws2 @ w2" and ne: "w1 \<noteq> []" "w2 \<noteq> []"
      and w: "\<forall>c\<in>set w1. is_word c" "\<forall>c\<in>set w2. is_word c"
      and sp: "\<forall>c\<in>set ws1. is_space c" "\<forall>c\<in>set ws2. is_space c"
      by blast
    let ?seg = "take n (c # cs)"
    let ?seg' = "name @ ''('' @ w1 @ '','' @ w2 @ '')''"
    have h: "hash \<notin> set ?seg"
      unfolding seg
      using no_hash_word [OF w(1)] no_hash_word [OF w(2)] no_hash_space [OF sp(1)]
        no_hash_space [OF sp(2)] "2.prems"(1) by simp
    have l: "?seg \<noteq> [] \<and> last ?seg \<noteq> newline"
      unfolding seg using ne w word_not_hash [of "last w2"] by simp
    have p: "plain ?seg'"
      using "2.prems"(2) safe_word [OF w(1)] safe_word [OF w(2)]
      by (simp add: plain_safe) (simp add: safe_def)
    from replace_segment [OF "2.prems"(3) h] l p
    have "le (run st0 ?seg) (run st ?seg')" by simp
    from "2.IH"(2) [OF Some x [symmetric] y [symmetric] "2.prems"(1,2) this]
    have "le (run (run st0 ?seg) (drop n (c # cs)))
             (run (run st ?seg') (sub_binop opc name True (drop n (c # cs))))" .
    moreover have "run st0 (c # cs) = run (run st0 ?seg) (drop n (c # cs))"
      by (metis append_take_drop_id run_append)
    moreover have "sub_binop opc name pw (c # cs)
        = ?seg' @ sub_binop opc name True (drop n (c # cs))"
      using m by simp
    ultimately show ?thesis by (simp add: run_append)
  qed
qed

lemma rewrite_ops_le: "le st0 st \<Longrightarrow> le (run st0 p) (run st (rewrite_ops p))"
proof -
  assume a: "le st0 st"
  let ?a = "sub_binop (CHR ''+'') ''_OB_A'' False p"
  let ?s = "sub_binop (CHR ''-'') ''_OB_S'' False ?a"
  have 1: "le (run st0 p) (run st ?a)"
    by (rule sub_binop_le [OF _ _ a]) (simp_all add: safe_def)
  have 2: "le (run st ?a) (run st ?s)"
    by (rule sub_binop_le [OF _ _ le_refl]) (simp_all add: safe_def)
  have 3: "le (run st ?s) (run st (rewrite_ops p))"
    unfolding rewrite_ops_def by (rule sub_binop_le [OF _ _ le_refl]) (simp_all add: safe_def)
  from 1 2 3 show ?thesis by (blast intro: le_trans)
qed

lemma on_even_le:
  assumes f: "\<And>p a b. le a b \<Longrightarrow> le (run a p) (run b (f p))"
  shows "le st0 st \<Longrightarrow> le (run st0 (concat ps)) (run st (concat (on_even f ps)))"
proof (induction ps arbitrary: st0 st rule: induct_list012)
  case 1
  then show ?case by simp
next
  case (2 x)
  then show ?case by (simp add: f)
next
  case (3 x y rest)
  from f [OF "3.prems", of x] have "le (run st0 x) (run st (f x))" .
  then have "le (run (run st0 x) y) (run (run st (f x)) y)" by (rule run_mono)
  from "3.IH"(1) [OF this] show ?case by (simp add: run_append)
qed

lemma concat_split_strings_from: "concat (split_strings_from acc s) = acc @ s"
proof (induction acc s rule: split_strings_from.induct)
  case (1 acc)
  show ?case by simp
next
  case (2 acc c cs)
  show ?case
  proof (cases "match_string_text (c # cs)")
    case None
    with "2.IH"(1) show ?thesis by simp
  next
    case (Some n)
    with "2.IH"(2) [OF Some] show ?thesis by simp
  qed
qed

lemma concat_split_strings: "concat (split_strings s) = s"
  by (simp add: split_strings_def concat_split_strings_from)

lemma split_lines_plain: "newline \<notin> set x \<Longrightarrow> split_lines x = [x]"
  by (induction x) (auto simp: Let_def)

lemma split_lines_append: "newline \<notin> set x \<Longrightarrow> split_lines (x @ newline # r) = x # split_lines r"
  by (induction x) (auto simp: Let_def)

lemma split_join:
  "ls \<noteq> [] \<Longrightarrow> \<forall>l\<in>set ls. newline \<notin> set l \<Longrightarrow> split_lines (join_lines ls) = ls"
  by (induction ls rule: join_lines.induct) (simp_all add: split_lines_plain split_lines_append)

definition okl :: "string \<Rightarrow> bool" where
  "okl l = (line_ok l \<and> newline \<notin> set l)"

lemma lines_ok_join: "list_all okl ls \<Longrightarrow> lines_ok (join_lines ls)"
proof (cases "ls = []")
  case True
  then show ?thesis by (simp add: lines_ok_def line_ok_def)
next
  case False
  assume "list_all okl ls"
  then have a: "\<forall>l\<in>set ls. newline \<notin> set l" and b: "list_all line_ok ls"
    by (auto simp: okl_def list_all_iff)
  from split_join [OF False a] b show ?thesis by (simp add: lines_ok_def)
qed

lemma lines_ok_split: "lines_ok s \<Longrightarrow> list_all okl (split_lines s)"
  using split_lines_no_newline by (auto simp: lines_ok_def okl_def list_all_iff)

lemma list_insert_all: "list_all Q ls \<Longrightarrow> Q m \<Longrightarrow> list_all Q (list_insert p m ls)"
  by (auto simp: list_insert_def list_all_iff dest: in_set_takeD in_set_dropD)

lemma fold_list_insert_all:
  "list_all Q ls \<Longrightarrow> list_all Q ms \<Longrightarrow> list_all Q (fold (list_insert p) ms ls)"
  by (induction ms arbitrary: ls) (simp_all add: list_insert_all)

lemma macros_okl: "list_all okl macros"
  by (simp add: macros_def okl_def line_ok_def)

lemma inject_macros_ok: "lines_ok src \<Longrightarrow> lines_ok (inject_macros src lvl)"
proof (cases "lvl = Mild")
  case True
  assume "lines_ok src"
  with True show ?thesis by (simp add: inject_macros_def)
next
  case False
  assume ok: "lines_ok src"
  let ?t = "concat (on_even rewrite_ops (split_strings src))"
  have "le (run Bol (concat (split_strings src))) (run Bol ?t)"
    by (rule on_even_le [OF rewrite_ops_le]) simp_all
  then have "le (run Bol src) (run Bol ?t)" by (simp add: concat_split_strings)
  with ok have "lines_ok ?t" by (auto simp: lines_ok_run dest: le_Bad)
  then have "list_all okl (split_lines ?t)" by (rule lines_ok_split)
  then have "list_all okl (fold (list_insert (find_insert_pos 0 (split_lines ?t)))
      (rev macros) (split_lines ?t))"
    by (rule fold_list_insert_all) (use macros_okl in simp)
  then show ?thesis using False by (simp add: inject_macros_def Let_def lines_ok_join)
qed

subsection \<open>The line flattener\<close>

lemma set_strip: "set (strip l) \<subseteq> set l"
proof -
  have "set (strip l) \<subseteq> set (dropWhile is_space l)"
    unfolding strip_def using set_dropWhileD by fastforce
  also have "\<dots> \<subseteq> set l" using set_dropWhileD by fastforce
  finally show ?thesis .
qed

lemma strip_hash: "strip (hash # l) = hash # rev (dropWhile is_space (rev l))"
proof -
  have a: "\<not> is_space hash" by (simp add: is_space_def codepoint_def)
  then have "dropWhile is_space (rev l @ [hash]) = dropWhile is_space (rev l) @ [hash]"
    by (simp add: dropWhile_append3)
  with a show ?thesis by (simp add: strip_def)
qed

lemma startswith_hash: "startswith s ''#'' = (\<exists>t. s = hash # t)"
  by (cases s) (simp_all add: startswith_def)

lemma line_no_hash:
  assumes "line_ok l" and "\<not> startswith (strip l) ''#''"
  shows "hash \<notin> set (strip l)"
proof (cases l)
  case Nil
  then show ?thesis by (simp add: strip_def)
next
  case (Cons c cs)
  show ?thesis
  proof (cases "c = hash")
    case True
    with Cons assms(2) show ?thesis by (simp add: strip_hash startswith_hash)
  next
    case False
    with Cons assms(1) have "hash \<notin> set l" by (simp add: line_ok_def)
    with set_strip [of l] show ?thesis by blast
  qed
qed

lemma okl_no_hash: "hash \<notin> set l \<Longrightarrow> newline \<notin> set l \<Longrightarrow> okl l"
  by (cases l) (simp_all add: okl_def line_ok_def)

lemma okl_hash: "startswith l ''#'' \<Longrightarrow> newline \<notin> set l \<Longrightarrow> okl l"
  by (auto simp: okl_def line_ok_def startswith_hash)

lemma flatten_loop_ok:
  assumes "list_all okl lines" and "list_all okl result"
      and "hash \<notin> set buffer" and "newline \<notin> set buffer"
  shows "list_all okl (fst (flatten_loop lines result buffer))
         \<and> hash \<notin> set (snd (flatten_loop lines result buffer))
         \<and> newline \<notin> set (snd (flatten_loop lines result buffer))"
  using assms
proof (induction lines result buffer rule: flatten_loop.induct)
  case (1 result buffer)
  then show ?case by simp
next
  case (2 line lines result buffer)
  let ?s = "strip line"
  from "2.prems"(1) have ol: "okl line" and rest: "list_all okl lines" by simp_all
  from ol have line: "line_ok line" "newline \<notin> set line" by (simp_all add: okl_def)
  from line(2) set_strip [of line] have sn: "newline \<notin> set ?s" by blast
  show ?case
  proof (cases "?s = []")
    case True
    with "2.IH"(1) [OF refl True rest "2.prems"(2,3,4)] show ?thesis by simp
  next
    case False
    show ?thesis
    proof (cases "startswith ?s ''#''")
      case True
      from okl_hash [OF True sn] have os: "okl ?s" .
      show ?thesis
      proof (cases "buffer \<noteq> []")
        case b: True
        from "2.prems"(3,4) set_strip [of buffer] have "okl (strip buffer)"
          by (intro okl_no_hash) blast+
        with "2.prems"(2) os have "list_all okl (result @ [strip buffer] @ [?s])" by simp
        from "2.IH"(2) [OF refl False True b rest this] False True b show ?thesis by simp
      next
        case b: False
        from "2.prems"(2) os have "list_all okl (result @ [?s])" by simp
        from "2.IH"(3) [OF refl False True b rest this "2.prems"(3,4)] False True b
        show ?thesis by simp
      qed
    next
      case nh: False
      from line_no_hash [OF line(1) nh] have "hash \<notin> set ?s" .
      with sn "2.prems"(3,4) have "hash \<notin> set (buffer @ '' '' @ ?s)"
        "newline \<notin> set (buffer @ '' '' @ ?s)" by simp_all
      from "2.IH"(4) [OF refl False nh rest "2.prems"(2) this] False nh show ?thesis by simp
    qed
  qed
qed

lemma flatten_code_ok: "lines_ok src \<Longrightarrow> lines_ok (flatten_code src lvl)"
proof (cases "lvl = Extreme")
  case False
  assume "lines_ok src"
  with False show ?thesis by (simp add: flatten_code_def)
next
  case True
  assume "lines_ok src"
  then have l: "list_all okl (split_lines src)" by (rule lines_ok_split)
  obtain result buffer where f: "flatten_loop (split_lines src) [] [] = (result, buffer)"
    by (cases "flatten_loop (split_lines src) [] []")
  from flatten_loop_ok [OF l, of "[]" "[]"] f
  have r: "list_all okl result" and b: "hash \<notin> set buffer" "newline \<notin> set buffer" by simp_all
  from b set_strip [of buffer] have "okl (strip buffer)" by (intro okl_no_hash) blast+
  with r have "list_all okl (if buffer \<noteq> [] then result @ [strip buffer] else result)" by simp
  then show ?thesis using True f by (simp add: flatten_code_def lines_ok_join)
qed

subsection \<open>The numeric pass\<close>

declare digits.simps [simp del] bit_length.simps [simp del] extend_pool.simps [simp del]

lemma digit_char_safe: "d < 16 \<Longrightarrow> digit_char d \<noteq> hash \<and> digit_char d \<noteq> newline"
proof -
  assume "d < 16"
  then have "digit_char d \<in> set ''0123456789abcdef''"
    unfolding digit_char_def by (intro nth_mem) simp
  then show ?thesis by auto
qed

lemma digits_plain: "2 \<le> b \<Longrightarrow> b \<le> 16 \<Longrightarrow> plain (digits b n)"
proof (induction b n rule: digits.induct)
  case (1 b n)
  show ?case
  proof (cases "n < b")
    case True
    with "1.prems" digit_char_safe [of n] show ?thesis
      by (auto simp: digits.simps [of b n] plain_def)
  next
    case False
    with "1.prems" have "\<not> (b < 2 \<or> n < b)" by simp
    from "1.IH" [OF this "1.prems"] have "plain (digits b (n div b))" .
    moreover have "n mod b < 16"
    proof -
      from "1.prems" have "n mod b < b" by simp
      with "1.prems" show ?thesis by arith
    qed
    ultimately show ?thesis
      using False "1.prems" digit_char_safe [of "n mod b"]
      by (auto simp: digits.simps [of b n] plain_def)
  qed
qed

lemma str_plain: "plain (str n)"
proof -
  have "plain (digits 10 k)" for k by (rule digits_plain) simp_all
  from this [of "nat n"] this [of "nat (- n)"] show ?thesis by (auto simp: str_def plain_def)
qed

lemma hex_plain: "plain (hex n)"
proof -
  have "plain (digits 16 k)" for k by (rule digits_plain) simp_all
  from this [of "nat n"] this [of "nat (- n)"] show ?thesis by (auto simp: hex_def plain_def)
qed

lemma oct_tail_safe: "safe (drop 2 (oct n))"
proof -
  have "plain (digits 8 k)" for k by (rule digits_plain) simp_all
  from this [of "nat n"] this [of "nat (- n)"] show ?thesis
    by (auto simp: oct_def plain_def safe_def)
qed

lemma plain_wrap: "safe a \<Longrightarrow> safe b \<Longrightarrow> a \<noteq> [] \<Longrightarrow> plain (a @ b)"
  by (simp add: plain_safe)

lemma replace_plain:
  assumes "replace m r = Inr (x, r')"
  shows "plain x"
proof -
  from assms obtain n where n: "int_of_digits m = Inr n"
    by (auto simp: replace_def split: sum.splits)
  define c3 where "c3 = (let choices = [str n];
          choices = (if n \<ge> 0 then choices @ [hex n] else choices)
      in if 0 < n \<and> n < 256
         then choices @ [''0'' @ drop 2 (oct n)] @ [''(0xFF&'' @ hex n @ '')'']
         else choices)"
  define x4 where "x4 = (if n > 1 then
               (let (a, r') = randint 1 (n - 1) r; b = n - a
                in (c3 @ [''('' @ str a @ ''+'' @ str b @ '')''], r'))
             else (c3, r))"
  define c5 where "c5 = (if n > 0 \<and> n AND (n - 1) = 0
             then fst x4 @ [''(1<<'' @ str (int (bit_length (nat n)) - 1) @ '')'']
             else fst x4)"
  have s: "safe (str k)" "safe (hex k)" for k
    using str_plain [of k] hex_plain [of k] by (simp_all add: plain_safe)
  have w0: "plain (''0'' @ drop 2 (oct n))"
    using oct_tail_safe [of n] by (auto simp: plain_def safe_def)
  have w1: "plain (''(0xFF&'' @ hex n @ '')'')"
    using s(2) [of n] by (auto simp: plain_def safe_def)
  have w2: "plain (''('' @ str a @ ''+'' @ str b @ '')'')" for a b
    using s(1) [of a] s(1) [of b] by (auto simp: plain_def safe_def)
  have w3: "plain (''(1<<'' @ str k @ '')'')" for k
    using s(1) [of k] by (auto simp: plain_def safe_def)
  have p3: "list_all plain c3 \<and> c3 \<noteq> []"
    unfolding c3_def Let_def using str_plain [of n] hex_plain [of n] w0 w1 by simp
  have p4: "list_all plain (fst x4) \<and> fst x4 \<noteq> []"
  proof (cases "n > 1")
    case False
    with p3 show ?thesis by (simp add: x4_def)
  next
    case True
    obtain a r' where a: "randint 1 (n - 1) r = (a, r')" by (cases "randint 1 (n - 1) r")
    with True p3 w2 [of a "n - a"] show ?thesis by (simp add: x4_def Let_def)
  qed
  from p4 w3 have p5: "list_all plain c5 \<and> c5 \<noteq> []" by (simp add: c5_def)
  have "replace m r = Inr (choice c5 (snd x4))"
    unfolding replace_def c5_def x4_def c3_def Let_def n
    by (simp split: prod.splits)
  with assms have "x = fst (choice c5 (snd x4))" by simp
  with choice_mem [of c5 "snd x4"] p5 show ?thesis by (auto simp: list_all_iff)
qed

lemma match_int_shape:
  assumes "match_int pw s = Some n"
  shows "take n s = takeWhile is_digit s \<and> 0 < n"
proof -
  from assms have n: "n = length (takeWhile is_digit s)" and ne: "takeWhile is_digit s \<noteq> []"
    by (auto simp: match_int_def Let_def split: if_splits list.splits)
  from takeWhile_eq_take [of is_digit s] n have "take n s = takeWhile is_digit s" by simp
  with n ne show ?thesis by simp
qed

lemma sub_numbers_le:
  "le st0 st \<Longrightarrow> sub_numbers pw s r = Inr (res, r') \<Longrightarrow> le (run st0 s) (run st res)"
proof (induction pw s r arbitrary: st0 st res r' rule: sub_numbers.induct)
  case (1 pw r)
  then show ?case by simp
next
  case (2 pw c cs r)
  show ?case
  proof (cases "match_int pw (c # cs)")
    case None
    with "2.prems"(2) obtain out where o: "sub_numbers (is_word c) cs r = Inr (out, r')"
      and res: "res = c # out"
      by (auto split: sum.splits)
    from "2.prems"(1) have "le (step st0 c) (step st c)" by (rule step_mono)
    from "2.IH"(1) [OF None this o] res show ?thesis by simp
  next
    case (Some n)
    let ?seg = "take n (c # cs)"
    from Some "2.prems"(2) obtain rep r1 out where rp: "replace ?seg r = Inr (rep, r1)"
      and o: "sub_numbers True (drop n (c # cs)) r1 = Inr (out, r')"
      and res: "res = rep @ out"
      by (auto split: sum.splits)
    from match_int_shape [OF Some] have sh: "?seg = takeWhile is_digit (c # cs)"
      and n0: "0 < n" by blast+
    from sh have dg: "\<forall>x\<in>set ?seg. is_word x" by (metis set_takeWhileD digit_word)
    from n0 have ne: "?seg \<noteq> []" by simp
    from dg ne have "is_word (last ?seg)" by (meson last_in_set)
    then have l: "last ?seg \<noteq> newline" using word_not_hash by blast
    from replace_plain [OF rp] have p: "plain rep" .
    from replace_segment [OF "2.prems"(1) no_hash_word [OF dg] ne l p]
    have "le (run st0 ?seg) (run st rep)" .
    from "2.IH"(2) [OF Some rp refl this o]
    have "le (run (run st0 ?seg) (drop n (c # cs))) (run (run st rep) out)" .
    moreover have "run st0 (c # cs) = run (run st0 ?seg) (drop n (c # cs))"
      by (metis append_take_drop_id run_append)
    ultimately show ?thesis using res by (simp add: run_append)
  qed
qed

lemma on_even_rng_le:
  assumes f: "\<And>p a b r x r'. le a b \<Longrightarrow> f p r = Inr (x, r') \<Longrightarrow> le (run a p) (run b x)"
  shows "le st0 st \<Longrightarrow> on_even_rng f ps r = Inr (ps', r')
         \<Longrightarrow> le (run st0 (concat ps)) (run st (concat ps'))"
proof (induction ps arbitrary: st0 st r ps' rule: induct_list012)
  case 1
  then show ?case by simp
next
  case (2 x)
  from "2.prems"(2) obtain x' where x: "f x r = Inr (x', r')" and ps': "ps' = [x']"
    by (auto split: sum.splits)
  from f [OF "2.prems"(1) x] ps' show ?case by simp
next
  case (3 x y rest)
  from "3.prems"(2) obtain x' r1 rest' where x: "f x r = Inr (x', r1)"
    and rs: "on_even_rng f rest r1 = Inr (rest', r')" and ps': "ps' = x' # y # rest'"
    by (auto split: sum.splits)
  from f [OF "3.prems"(1) x] have "le (run st0 x) (run st x')" .
  then have "le (run (run st0 x) y) (run (run st x') y)" by (rule run_mono)
  from "3.IH"(1) [OF this rs] ps' show ?case by (simp add: run_append)
qed

lemma obfuscate_numbers_ok:
  assumes "lines_ok src" and "obfuscate_numbers src lvl r = Inr (out, r')"
  shows "lines_ok out"
proof (cases "lvl = Extreme")
  case False
  with assms show ?thesis by (simp add: obfuscate_numbers_def)
next
  case True
  with assms(2) obtain parts
    where p: "on_even_rng (sub_numbers False) (split_strings src) r = Inr (parts, r')"
      and out: "out = concat parts"
    by (auto simp: obfuscate_numbers_def split: sum.splits)
  have "le (run Bol (concat (split_strings src))) (run Bol (concat parts))"
    by (rule on_even_rng_le [OF sub_numbers_le _ p]) simp_all
  then have "le (run Bol src) (run Bol (concat parts))" by (simp add: concat_split_strings)
  with assms(1) out show ?thesis by (auto simp: lines_ok_run dest: le_Bad)
qed

lemma text_passes_ok:
  assumes "lines_ok t"
      and "obfuscate_numbers (inject_macros (flatten_code t lvl) lvl) lvl r = Inr (out, r')"
  shows "lines_ok out"
  by (rule obfuscate_numbers_ok [OF inject_macros_ok [OF flatten_code_ok [OF assms(1)]] assms(2)])

text \<open>The text that \<open>obfuscate\<close> hands from the token passes to the text passes.\<close>

definition serialized :: "string \<Rightarrow> level \<Rightarrow> rng \<Rightarrow> string" where
  "serialized src lvl r =
     (case rename_identifiers (strip_comments (tokenize src)) lvl r of
        Inl e \<Rightarrow> []
      | Inr ((tokens, m), r1) \<Rightarrow> detokenize (compress_whitespace tokens lvl))"

lemma obfuscate_serialized:
  assumes "obfuscate src lvl r = Inr ((out, m), r')"
  shows "\<exists>r1. obfuscate_numbers
            (inject_macros (flatten_code (serialized src lvl r) lvl) lvl) lvl r1 = Inr (out, r')"
  using assms
  by (auto simp: obfuscate_def serialized_def Let_def split: sum.splits prod.splits)

section \<open>Directives from the source to the serialized text\<close>

subsection \<open>What the lexemes of each kind hold\<close>

text \<open>\<open>clean s n\<close>: the first \<open>n\<close> characters of \<open>s\<close> hold no \<open>#\<close> and no newline.\<close>

definition clean :: "string \<Rightarrow> nat \<Rightarrow> bool" where
  "clean s n = safe (take n s)"

definition cleanr :: "string \<Rightarrow> nat option \<Rightarrow> bool" where
  "cleanr s r = (case r of None \<Rightarrow> True | Some n \<Rightarrow> clean s n)"

definition okc :: "char \<Rightarrow> bool" where
  "okc c = (c \<noteq> hash \<and> c \<noteq> newline)"

lemma safe_iff: "safe s = (\<forall>c\<in>set s. okc c)"
  by (auto simp: safe_def okc_def)

lemma clean_0 [simp]: "clean s 0"
  by (simp add: clean_def safe_def)

lemma clean_Cons: "okc c \<Longrightarrow> clean cs n \<Longrightarrow> clean (c # cs) (Suc n)"
  by (simp add: clean_def safe_iff)

lemma clean_add: "clean s a \<Longrightarrow> clean (drop a s) b \<Longrightarrow> clean s (a + b)"
  by (simp add: clean_def take_add)

lemma clean_takeWhile: "(\<And>c. P c \<Longrightarrow> okc c) \<Longrightarrow> clean s (length (takeWhile P s))"
proof -
  assume p: "\<And>c. P c \<Longrightarrow> okc c"
  have "take (length (takeWhile P s)) s = takeWhile P s"
    using takeWhile_eq_take [of P s] by simp
  with p show ?thesis by (auto simp: clean_def safe_iff dest: set_takeWhileD)
qed

lemma cleanr_orelse: "cleanr s a \<Longrightarrow> cleanr s b \<Longrightarrow> cleanr s (orelse a b)"
  by (cases a) (simp_all add: orelse_def cleanr_def)

lemma cleanr_lit: "safe p \<Longrightarrow> cleanr s (lit p s)"
  by (simp add: cleanr_def lit_def clean_def)

lemma cleanr_many1: "(\<And>c. P c \<Longrightarrow> okc c) \<Longrightarrow> cleanr s (many1 P s)"
  by (simp add: cleanr_def many1_def Let_def clean_takeWhile)

lemma okc_word: "is_word c \<Longrightarrow> okc c"
  using word_not_hash by (simp add: okc_def)

lemma okc_digit: "is_digit c \<Longrightarrow> okc c"
  by (rule okc_word) (rule digit_word)

lemma okc_hex: "is_hex c \<Longrightarrow> okc c"
  by (auto simp: is_hex_def is_digit_def okc_def codepoint_def)

lemma okc_octal: "is_octal c \<Longrightarrow> okc c"
  by (auto simp: is_octal_def okc_def codepoint_def)

lemma okc_letter: "is_ascii_letter c \<Longrightarrow> okc c"
  by (rule okc_word) (simp add: is_word_def)

lemma cleanr_hex: "cleanr s (match_hex s)"
proof (cases s)
  case Nil
  then show ?thesis by (simp add: match_hex_def cleanr_def)
next
  case (Cons c t)
  show ?thesis
  proof (cases t)
    case Nil
    with Cons show ?thesis by (simp add: match_hex_def cleanr_def)
  next
    case (Cons x r)
    show ?thesis
    proof (cases "many1 is_hex r")
      case None
      with Cons \<open>s = c # t\<close> show ?thesis by (simp add: match_hex_def cleanr_def)
    next
      case (Some m)
      with cleanr_many1 [of is_hex r, OF okc_hex] have "clean r m" by (simp add: cleanr_def)
      then have "okc c \<Longrightarrow> okc x \<Longrightarrow> clean (c # x # r) (Suc (Suc m))"
        by (simp add: clean_Cons)
      with Some Cons \<open>s = c # t\<close> show ?thesis
        by (auto simp: match_hex_def cleanr_def okc_def)
    qed
  qed
qed

lemma cleanr_octal: "cleanr s (match_octal s)"
proof (cases s)
  case Nil
  then show ?thesis by (simp add: match_octal_def cleanr_def)
next
  case (Cons c r)
  show ?thesis
  proof (cases "many1 is_octal r")
    case None
    with Cons show ?thesis by (simp add: match_octal_def cleanr_def)
  next
    case (Some m)
    with cleanr_many1 [of is_octal r, OF okc_octal] have "clean r m" by (simp add: cleanr_def)
    then have "okc c \<Longrightarrow> clean (c # r) (Suc m)" by (rule clean_Cons [rotated])
    with Some Cons show ?thesis by (auto simp: match_octal_def cleanr_def okc_def)
  qed
qed

lemma clean_fraction: "clean t (opt_fraction t)"
proof (cases t)
  case Nil
  then show ?thesis by (simp add: opt_fraction_def)
next
  case (Cons c r)
  have "clean r (length (takeWhile is_digit r))"
    by (rule clean_takeWhile) (rule okc_digit)
  then have "okc c \<Longrightarrow> clean (c # r) (Suc (length (takeWhile is_digit r)))"
    by (rule clean_Cons [rotated])
  with Cons show ?thesis by (auto simp: opt_fraction_def okc_def)
qed

lemma clean_exponent: "clean t (opt_exponent t)"
proof (cases t)
  case Nil
  then show ?thesis by (simp add: opt_exponent_def)
next
  case (Cons c r)
  define sg where "sg = (case r of d # _ \<Rightarrow> if d = CHR ''+'' \<or> d = CHR ''-'' then 1 else 0
                     | [] \<Rightarrow> (0::nat))"
  have sg: "clean r sg"
  proof (cases r)
    case Nil
    then show ?thesis by (simp add: sg_def)
  next
    case (Cons d r')
    then show ?thesis by (auto simp: sg_def clean_def safe_def)
  qed
  show ?thesis
  proof (cases "(c = CHR ''e'' \<or> c = CHR ''E'') \<and> many1 is_digit (drop sg r) \<noteq> None")
    case False
    with Cons show ?thesis
      by (auto simp: opt_exponent_def Let_def sg_def [symmetric] split: option.splits)
  next
    case True
    then obtain n where n: "many1 is_digit (drop sg r) = Some n" by auto
    with cleanr_many1 [of is_digit "drop sg r", OF okc_digit]
    have "clean (drop sg r) n" by (simp add: cleanr_def)
    from clean_add [OF sg this] have "clean r (sg + n)" .
    moreover from True have "okc c" by (auto simp: okc_def)
    ultimately have "clean (c # r) (Suc (sg + n))" by (rule clean_Cons [rotated])
    with True n Cons show ?thesis
      by (auto simp: opt_exponent_def Let_def sg_def [symmetric])
  qed
qed

lemma cleanr_decimal: "cleanr s (match_decimal s)"
proof (cases "many1 is_digit s")
  case None
  then show ?thesis by (simp add: match_decimal_def cleanr_def)
next
  case (Some n)
  with cleanr_many1 [of is_digit s, OF okc_digit] have a: "clean s n" by (simp add: cleanr_def)
  let ?f = "opt_fraction (drop n s)"
  have b: "clean s (n + ?f)" by (rule clean_add [OF a clean_fraction])
  have "clean s (n + ?f + opt_exponent (drop (n + ?f) s))"
    by (rule clean_add [OF b clean_exponent])
  with Some show ?thesis by (simp add: match_decimal_def cleanr_def Let_def)
qed

lemma cleanr_number: "cleanr s (match_number s)"
  unfolding match_number_def by (intro cleanr_orelse cleanr_hex cleanr_octal cleanr_decimal)

lemma cleanr_ident: "cleanr s (match_ident s)"
proof (cases s)
  case Nil
  then show ?thesis by (simp add: match_ident_def cleanr_def)
next
  case (Cons c cs)
  have "clean cs (length (takeWhile is_word cs))"
    by (rule clean_takeWhile) (rule okc_word)
  then have "okc c \<Longrightarrow> clean (c # cs) (Suc (length (takeWhile is_word cs)))"
    by (rule clean_Cons [rotated])
  with Cons okc_letter [of c] show ?thesis
    by (auto simp: match_ident_def cleanr_def okc_def)
qed

lemma cleanr_op_char: "cleanr s (match_op_char s)"
proof (cases s)
  case Nil
  then show ?thesis by (simp add: match_op_char_def cleanr_def)
next
  case (Cons c cs)
  then show ?thesis
    by (auto simp: match_op_char_def cleanr_def clean_def safe_def op_chars_def
             split: list.splits)
qed

lemma cleanr_op: "cleanr s (match_op s)"
  unfolding match_op_def
  by (intro cleanr_orelse cleanr_lit cleanr_op_char) (simp_all add: safe_def)

lemma cleanr_punct: "cleanr s (match_punct s)"
  by (cases s) (auto simp: match_punct_def cleanr_def clean_def safe_def punct_chars_def)

text \<open>Which matcher stands behind the kind that \<open>match_token\<close> reports.\<close>

lemma match_token_kind:
  assumes "match_token bol s = Some (k, n)"
  shows "(case k of Comment \<Rightarrow> match_comment s | Str \<Rightarrow> match_string s
          | Charlit \<Rightarrow> match_charlit s | Preproc \<Rightarrow> match_preproc bol s
          | Number \<Rightarrow> match_number s | Ident \<Rightarrow> match_ident s | Op \<Rightarrow> match_op s
          | Punct \<Rightarrow> match_punct s | Ws \<Rightarrow> match_ws s) = Some n"
  using assms
  by (auto simp: match_token_def orelse_def tag_def split: option.splits)

lemma match_token_clean:
  assumes "match_token bol s = Some (k, n)" and "k \<in> {Number, Ident, Op, Punct}"
  shows "clean s n"
proof -
  from match_token_kind [OF assms(1)] assms(2)
  have "match_number s = Some n \<or> match_ident s = Some n \<or> match_op s = Some n
        \<or> match_punct s = Some n" by auto
  with cleanr_number [of s] cleanr_ident [of s] cleanr_op [of s] cleanr_punct [of s]
  show ?thesis by (auto simp: cleanr_def)
qed

subsection \<open>Where a lexeme ends\<close>

lemma clean_last:
  assumes "clean s n" and "0 < n" and "n \<le> length s"
  shows "last (take n s) \<noteq> newline"
proof -
  from assms(2,3) have "take n s \<noteq> []" by auto
  then have "last (take n s) \<in> set (take n s)" by (rule last_in_set)
  with assms(1) show ?thesis by (auto simp: clean_def safe_def)
qed

lemma take_nonempty: "0 < n \<Longrightarrow> n \<le> length s \<Longrightarrow> take n s \<noteq> []"
  by auto

lemma block_end_last: "block_end s = Some n \<Longrightarrow> last (take n s) = CHR ''/''"
proof (induction s arbitrary: n rule: block_end.induct)
  case (1 a b cs)
  show ?case
  proof (cases "a = CHR ''*'' \<and> b = CHR ''/''")
    case True
    with "1.prems" show ?thesis by simp
  next
    case False
    with "1.prems" obtain m where m: "block_end (b # cs) = Some m" and n: "n = Suc m" by auto
    from block_end_bound [OF m] have "take m (b # cs) \<noteq> []" by (intro take_nonempty) simp_all
    with "1.IH" [OF False m] n show ?thesis by simp
  qed
qed simp_all

lemma quoted_body_last: "quoted_body d q s = Some n \<Longrightarrow> last (take n s) = q"
proof (induction d q s arbitrary: n rule: quoted_body.induct)
  case (1 d q)
  then show ?case by simp
next
  case (2 d q c cs)
  show ?case
  proof (cases "c = q")
    case True
    with "2.prems" show ?thesis by auto
  next
    case nq: False
    show ?thesis
    proof (cases "c = backslash")
      case True
      with nq "2.prems" obtain e ds m where cs: "cs = e # ds" and ok: "d \<or> e \<noteq> newline"
        and m: "quoted_body d q ds = Some m" and n: "n = m + 2"
        by (auto split: list.splits if_splits)
      from quoted_body_bound [OF m] have "take m ds \<noteq> []" by (intro take_nonempty) simp_all
      with "2.IH"(1) [OF nq True cs ok m] n cs show ?thesis by simp
    next
      case False
      with nq "2.prems" obtain m where m: "quoted_body d q cs = Some m" and n: "n = Suc m"
        by auto
      from quoted_body_bound [OF m] have "take m cs \<noteq> []" by (intro take_nonempty) simp_all
      with "2.IH"(2) [OF nq False m] n show ?thesis by simp
    qed
  qed
qed

lemma match_quoted_last: "match_quoted d q s = Some n \<Longrightarrow> last (take n s) = q"
proof -
  assume a: "match_quoted d q s = Some n"
  then obtain cs m where s: "s = q # cs" and m: "quoted_body d q cs = Some m" and n: "n = Suc m"
    by (auto simp: match_quoted_def split: list.splits if_splits)
  from quoted_body_bound [OF m] have "take m cs \<noteq> []" by (intro take_nonempty) simp_all
  with quoted_body_last [OF m] s n show ?thesis by simp
qed

lemma lit_take: "lit p s = Some n \<Longrightarrow> n = length p \<and> take n s = p"
  by (auto simp: lit_def split: if_splits)

lemma take_takeWhile: "take (k + length (takeWhile P (drop k s))) s = take k s @ takeWhile P (drop k s)"
  using takeWhile_eq_take [of P "drop k s"] by (simp add: take_add)

lemma match_comment_last:
  assumes "match_comment s = Some n"
  shows "last (take n s) \<noteq> newline"
proof (cases "lit ''/*'' s")
  case (Some k)
  show ?thesis
  proof (cases "block_end (drop k s)")
    case (Some m)
    with \<open>lit ''/*'' s = Some k\<close> assms have n: "n = k + m"
      by (simp add: match_comment_def orelse_def)
    from block_end_bound [OF Some] have "take m (drop k s) \<noteq> []"
      by (intro take_nonempty) simp_all
    with block_end_last [OF Some] n show ?thesis by (simp add: take_add)
  next
    case None
    with \<open>lit ''/*'' s = Some k\<close> lit_take [of "''/*''" s k] lit_take [of "''//''" s]
    show ?thesis using assms
      by (auto simp: match_comment_def orelse_def split: option.splits)
  qed
next
  case None
  with assms obtain k where k: "lit ''//'' s = Some k"
    and n: "n = k + length (takeWhile (\<lambda>c. c \<noteq> newline) (drop k s))"
    by (auto simp: match_comment_def orelse_def split: option.splits)
  from lit_take [OF k] have t: "take k s = ''//''" by (rule conjunct2)
  have "take n s = ''//'' @ takeWhile (\<lambda>c. c \<noteq> newline) (drop k s)"
    unfolding n take_takeWhile t ..
  moreover have "newline \<notin> set (''//'' @ takeWhile (\<lambda>c. c \<noteq> newline) (drop k s))"
    by (auto dest: set_takeWhileD)
  ultimately show ?thesis by (metis last_in_set append_is_Nil_conv list.distinct(1))
qed

text \<open>A directive lexeme: a \<open>#\<close> and the rest of its line.\<close>

definition directive :: "string \<Rightarrow> bool" where
  "directive v = (v \<noteq> [] \<and> hd v = hash \<and> newline \<notin> set v)"

lemma match_preproc_shape:
  assumes "match_preproc bol s = Some n"
  shows "bol \<and> directive (take n s) \<and> (drop n s = [] \<or> hd (drop n s) = newline)"
proof -
  let ?P = "\<lambda>c. c \<noteq> newline"
  from assms obtain cs where s: "s = hash # cs" and bol: bol
    and n: "n = Suc (length (takeWhile ?P cs))"
    by (auto simp: match_preproc_def split: list.splits if_splits)
  have t: "take n s = hash # takeWhile ?P cs"
    using takeWhile_eq_take [of ?P cs] by (simp add: s n)
  have d: "drop n s = dropWhile ?P cs"
    using dropWhile_eq_drop [of ?P cs] by (simp add: s n)
  have "dropWhile ?P cs = [] \<or> hd (dropWhile ?P cs) = newline"
    using hd_dropWhile [of ?P cs] by auto
  with bol t d show ?thesis by (auto simp: directive_def dest: set_takeWhileD)
qed

lemma match_token_newline: "\<exists>n. match_token bol (newline # cs) = Some (Ws, n)"
proof -
  have "match_comment (newline # cs) = None"
    by (simp add: match_comment_def lit_def orelse_def)
  moreover have "match_string (newline # cs) = None" "match_charlit (newline # cs) = None"
    by (simp_all add: match_string_def match_charlit_def match_quoted_def)
  moreover have "match_preproc bol (newline # cs) = None"
    by (simp add: match_preproc_def)
  moreover have "match_number (newline # cs) = None"
    by (simp add: match_number_def match_hex_def match_octal_def match_decimal_def many1_def
          orelse_def is_digit_def codepoint_def split: list.splits)
  moreover have "match_ident (newline # cs) = None"
    by (simp add: match_ident_def is_ascii_letter_def codepoint_def)
  moreover have "match_op (newline # cs) = None"
    by (simp add: match_op_def match_op_char_def lit_def orelse_def op_chars_def)
  moreover have "match_punct (newline # cs) = None"
    by (simp add: match_punct_def punct_chars_def)
  moreover have "\<exists>n. match_ws (newline # cs) = Some n"
    by (simp add: match_ws_def many1_def is_space_def codepoint_def)
  ultimately show ?thesis
    by (auto simp: match_token_def orelse_def tag_def)
qed

lemma match_token_end:
  assumes "match_token bol s = Some (k, n)" and "last (take n s) = newline"
  shows "k = Ws"
proof (rule ccontr)
  assume nk: "k \<noteq> Ws"
  note b = match_token_bound [OF assms(1)]
  note m = match_token_kind [OF assms(1)]
  show False
  proof (cases k)
    case Comment
    with m match_comment_last [of s n] assms(2) show ?thesis by simp
  next
    case Str
    with m match_quoted_last [of True dquote s n] assms(2) show ?thesis
      by (simp add: match_string_def)
  next
    case Charlit
    with m match_quoted_last [of True squote s n] assms(2) show ?thesis
      by (simp add: match_charlit_def)
  next
    case Preproc
    with m match_preproc_shape [of bol s n] have "newline \<notin> set (take n s)"
      by (simp add: directive_def)
    moreover from b have "last (take n s) \<in> set (take n s)"
      by (intro last_in_set take_nonempty) simp_all
    ultimately show ?thesis using assms(2) by simp
  next
    case Ws
    with nk show ?thesis by simp
  qed (use match_token_clean [OF assms(1)] clean_last [of s n] b assms(2) in simp_all)
qed

subsection \<open>Directives in the token stream\<close>

text \<open>
  In the stream that \<open>tokenize\<close> returns, a directive token is a \<open>#\<close> with the rest of its
  line, the token before it (if any) is whitespace, and so is the token after it (if any).
  \<open>isolated pp pa ts\<close> says so of \<open>ts\<close>, read after a token that was a directive (\<open>pp\<close>) or
  after whitespace or nothing (\<open>pa\<close>).
\<close>

fun isolated :: "bool \<Rightarrow> bool \<Rightarrow> token list \<Rightarrow> bool" where
  "isolated pp pa [] = True"
| "isolated pp pa ((k, v) # ts) =
     ((k = Preproc \<longrightarrow> pa \<and> directive v) \<and> (pp \<longrightarrow> k = Ws)
      \<and> isolated (k = Preproc) (k = Ws) ts)"

lemma isolated_mono: "isolated pp False ts \<Longrightarrow> isolated pp pa ts"
  by (cases ts) auto

lemma tokenize_from_isolated:
  "(bol \<longrightarrow> pa) \<Longrightarrow> (pp \<longrightarrow> s = [] \<or> hd s = newline)
   \<Longrightarrow> isolated pp pa (tokenize_from bol s)"
proof (induction bol s arbitrary: pp pa rule: tokenize_from.induct)
  case (1 bol)
  show ?case by simp
next
  case (2 bol c cs)
  show ?case
  proof (cases "match_token bol (c # cs)")
    case None
    with match_token_newline [of bol cs] have cn: "c \<noteq> newline" by auto
    with "2.prems"(2) have npp: "\<not> pp" by simp
    have "isolated pp pa (tokenize_from (c = newline) cs)"
      by (rule "2.IH"(1) [OF None]) (use cn npp in simp_all)
    with None show ?thesis by simp
  next
    case (Some p)
    obtain k n where p: "p = (k, n)" by (cases p)
    let ?v = "take n (c # cs)" and ?rest = "drop n (c # cs)"
    from Some p have mt: "match_token bol (c # cs) = Some (k, n)" by simp
    have a: "k = Preproc \<longrightarrow> pa \<and> directive ?v \<and> (?rest = [] \<or> hd ?rest = newline)"
    proof
      assume k: "k = Preproc"
      with match_token_kind [OF mt] have "match_preproc bol (c # cs) = Some n" by simp
      from match_preproc_shape [OF this] "2.prems"(1)
      show "pa \<and> directive ?v \<and> (?rest = [] \<or> hd ?rest = newline)" by simp
    qed
    have b: "pp \<longrightarrow> k = Ws"
    proof
      assume pp
      with "2.prems"(2) have "c = newline" by simp
      with match_token_newline [of bol cs] mt show "k = Ws" by auto
    qed
    have c: "last ?v = newline \<longrightarrow> k = Ws"
      using match_token_end [OF mt] by blast
    have "isolated (k = Preproc) (k = Ws) (tokenize_from (last ?v = newline) ?rest)"
      by (rule "2.IH"(2) [OF Some p [symmetric]]) (use a c in auto)
    with a b mt show ?thesis by simp
  qed
qed

lemma tokenize_from_clean:
  "(k, v) \<in> set (tokenize_from bol s) \<Longrightarrow> k \<in> {Number, Ident, Op, Punct} \<Longrightarrow> hash \<notin> set v"
proof (induction bol s rule: tokenize_from.induct)
  case (1 bol)
  then show ?case by simp
next
  case (2 bol c cs)
  show ?case
  proof (cases "match_token bol (c # cs)")
    case None
    with 2 show ?thesis by simp
  next
    case (Some p)
    obtain k' n where p: "p = (k', n)" by (cases p)
    from Some p have mt: "match_token bol (c # cs) = Some (k', n)" by simp
    from "2.prems"(1) mt
    have "(k, v) = (k', take n (c # cs))
          \<or> (k, v) \<in> set (tokenize_from (last (take n (c # cs)) = newline) (drop n (c # cs)))"
      by simp
    then show ?thesis
    proof
      assume "(k, v) = (k', take n (c # cs))"
      with match_token_clean [OF mt] "2.prems"(2) show ?thesis
        by (auto simp: clean_def safe_def)
    next
      assume "(k, v) \<in> set (tokenize_from (last (take n (c # cs)) = newline) (drop n (c # cs)))"
      from "2.IH"(2) [OF Some p [symmetric] this "2.prems"(2)] show ?thesis .
    qed
  qed
qed

text \<open>A token is quiet when it is a directive, whitespace, or holds no \<open>#\<close>.\<close>

definition quiet :: "token \<Rightarrow> bool" where
  "quiet t = (fst t = Preproc \<or> fst t = Ws \<or> hash \<notin> set (snd t))"

text \<open>The condition on the source: no string literal and no character literal of it holds
  a \<open>#\<close>.\<close>

definition hash_free_literals :: "string \<Rightarrow> bool" where
  "hash_free_literals src =
     (\<forall>(k, v)\<in>set (tokenize src). (k = Str \<or> k = Charlit) \<longrightarrow> hash \<notin> set v)"

lemma strip_comments_isolated:
  "isolated pp pa ts \<Longrightarrow> isolated pp pa (strip_comments ts)"
proof (induction ts arbitrary: pp pa)
  case Nil
  then show ?case by (simp add: strip_comments_def)
next
  case (Cons t ts)
  obtain k v where t: "t = (k, v)" by (cases t)
  show ?case
  proof (cases "k = Comment")
    case True
    with Cons.prems t have "\<not> pp" and "isolated False False ts" by auto
    from Cons.IH [OF this(2)] have "isolated False pa (strip_comments ts)"
      by (rule isolated_mono)
    with True t \<open>\<not> pp\<close> show ?thesis by (simp add: strip_comments_def)
  next
    case False
    from Cons.prems t have "isolated (k = Preproc) (k = Ws) ts" by simp
    from Cons.IH [OF this] Cons.prems t False show ?thesis by (simp add: strip_comments_def)
  qed
qed

lemma strip_comments_quiet:
  assumes "hash_free_literals src"
  shows "list_all quiet (strip_comments (tokenize src))"
proof -
  have "quiet (k, v)" if m: "(k, v) \<in> set (tokenize src)" and k: "k \<noteq> Comment" for k v
  proof (cases "k = Str \<or> k = Charlit")
    case True
    with assms m show ?thesis by (auto simp: hash_free_literals_def quiet_def)
  next
    case False
    show ?thesis
    proof (cases "k = Preproc \<or> k = Ws")
      case True
      then show ?thesis by (auto simp: quiet_def)
    next
      case nw: False
      with False k have "k \<in> {Number, Ident, Op, Punct}" by (cases k) simp_all
      from tokenize_from_clean [OF m [unfolded tokenize_def] this] show ?thesis
        by (simp add: quiet_def)
    qed
  qed
  then show ?thesis by (auto simp: list_all_iff strip_comments_def)
qed

lemma apply_mapping_isolated:
  "isolated pp pa ts \<Longrightarrow> isolated pp pa (apply_mapping m ts)"
proof (induction ts arbitrary: pp pa)
  case Nil
  then show ?case by (simp add: apply_mapping_def)
next
  case (Cons t ts)
  obtain k v where t: "t = (k, v)" by (cases t)
  from Cons.prems t have "isolated (k = Preproc) (k = Ws) ts" by simp
  from Cons.IH [OF this] have "isolated (k = Preproc) (k = Ws) (apply_mapping m ts)" .
  with Cons.prems t show ?case
    by (auto simp: apply_mapping_def split: option.splits)
qed

lemma apply_mapping_quiet:
  assumes "list_all quiet ts" and "\<forall>n\<in>snd ` set m. hash \<notin> set n"
  shows "list_all quiet (apply_mapping m ts)"
proof -
  have h: "hash \<notin> set n" if "map_of m v = Some n" for v n
    using that assms(2) by (force dest: map_of_SomeD)
  have "quiet (case map_of m v of
            Some n \<Rightarrow> if k = Ident then (k, n) else (k, v)
          | None \<Rightarrow> (k, v))" if "quiet (k, v)" for k v
  proof (cases "map_of m v")
    case None
    with that show ?thesis by simp
  next
    case (Some n)
    with that h [OF Some] show ?thesis by (simp add: quiet_def)
  qed
  with assms(1) show ?thesis
    by (auto simp: apply_mapping_def list_all_iff)
qed

subsection \<open>Generated names hold no \<open>#\<close>\<close>

lemma mild_pool_hash_free: "list_all (\<lambda>n. hash \<notin> set n) (fst (base_pool 0 Mild []))"
  by code_simp

lemma moderate_pool_hash_free: "list_all (\<lambda>n. hash \<notin> set n) (fst (base_pool 0 Moderate []))"
  by code_simp

lemma confusing_hash_free: "list_all (\<lambda>n. hash \<notin> set n) CONFUSING"
  by code_simp

lemma extension_hash_free: "extension n \<Longrightarrow> hash \<notin> set n"
  using confusing_hash_free by (auto simp: extension_def list_all_iff)

lemma base_pool_hash_free: "n \<in> set (fst (base_pool count lvl r)) \<Longrightarrow> hash \<notin> set n"
proof (cases lvl)
  case Mild
  then have "fst (base_pool count lvl r) = fst (base_pool 0 Mild [])"
    by (simp add: base_pool_def)
  moreover assume "n \<in> set (fst (base_pool count lvl r))"
  ultimately show ?thesis using mild_pool_hash_free by (simp add: list_all_iff)
next
  case Moderate
  then have "fst (base_pool count lvl r) = fst (base_pool 0 Moderate [])"
    by (simp add: base_pool_def)
  moreover assume "n \<in> set (fst (base_pool count lvl r))"
  ultimately show ?thesis using moderate_pool_hash_free by (simp add: list_all_iff)
next
  case Extreme
  assume "n \<in> set (fst (base_pool count lvl r))"
  with Extreme extend_pool_keeps [of CONFUSING count r]
  have "n \<in> set CONFUSING \<or> extension n" by (auto simp: base_pool_def)
  then show ?thesis
    using confusing_hash_free extension_hash_free by (auto simp: list_all_iff)
qed

lemma generated_hash_free: "n \<in> set (fst (generate_names count lvl r)) \<Longrightarrow> hash \<notin> set n"
  using set_generate_names [of count lvl r] base_pool_hash_free by blast

lemma rename_tokens:
  assumes "rename_identifiers tokens lvl r = Inr ((toks', m), r')"
  shows "toks' = apply_mapping m tokens"
  using assms
  by (auto simp: rename_identifiers_def Let_def split: prod.splits sum.splits)

lemma rename_isolated_quiet:
  assumes "rename_identifiers tokens lvl r = Inr ((toks', m), r')"
      and "isolated pp pa tokens" and "list_all quiet tokens"
  shows "isolated pp pa toks' \<and> list_all quiet toks'"
proof -
  from rename_mapping [OF assms(1)]
  have "m = zip (map fst (sort_key (\<lambda>(k, c). - int c) (tally tokens [])))
                (fst (generate_names (card (renameable tokens)) lvl r))"
    by (rule conjunct1)
  then have "snd ` set m \<subseteq> set (fst (generate_names (card (renameable tokens)) lvl r))"
    by (auto dest: set_zip_rightD)
  with generated_hash_free have "\<forall>n\<in>snd ` set m. hash \<notin> set n" by blast
  from apply_mapping_quiet [OF assms(3) this] apply_mapping_isolated [OF assms(2)]
  show ?thesis by (simp add: rename_tokens [OF assms(1)])
qed

subsection \<open>The whitespace policy puts each directive on a line of its own\<close>

lemma detokenize_Cons: "detokenize ((k, v) # ts) = v @ detokenize ts"
  by (simp add: detokenize_def)

lemma run_directive: "directive v \<Longrightarrow> run Bol v = Dir"
proof -
  assume "directive v"
  then obtain r where v: "v = hash # r" and r: "newline \<notin> set r"
    by (cases v) (auto simp: directive_def)
  have "run Dir r = Dir" using r by (induction r) auto
  with v show ?thesis by simp
qed

lemma compress_from_run:
  assumes "isolated pp pa ts" and "list_all quiet ts"
      and "st \<noteq> Bad" and "st = Dir \<longrightarrow> pp" and "pp = (p = Some Preproc)"
      and "next_kind ts = Some Preproc \<longrightarrow> st = Bol"
  shows "run st (detokenize (compress_from Extreme p ts)) \<noteq> Bad"
  using assms
proof (induction ts arbitrary: pp pa st p)
  case Nil
  then show ?case by (simp add: detokenize_def)
next
  case (Cons t ts)
  obtain k v where t: "t = (k, v)" by (cases t)
  from Cons.prems(1) t have iso: "isolated (k = Preproc) (k = Ws) ts"
    and pk: "k = Preproc \<longrightarrow> pa \<and> directive v" and pw: "pp \<longrightarrow> k = Ws" by simp_all
  from Cons.prems(2) t have q: "quiet (k, v)" and qs: "list_all quiet ts" by simp_all
  have nx: "next_kind ts = Some Preproc \<longrightarrow> k = Ws"
    using iso by (cases ts) (auto simp: next_kind_def)
  show ?case
  proof (cases "k = Ws")
    case True
    with Cons.prems(5) have "ws_out Extreme p (next_kind ts) v
        = (if next_kind ts = Some Preproc \<or> pp then Some [newline]
           else if (p = Some Ident \<or> p = Some Number)
                   \<and> (next_kind ts = Some Ident \<or> next_kind ts = Some Number)
           then Some '' '' else None)"
      by (simp add: ws_out_def)
    moreover have "run (step st newline) (detokenize (compress_from Extreme (Some Ws) ts)) \<noteq> Bad"
    proof (rule Cons.IH [OF _ qs])
      show "isolated False True ts" using iso True by simp
      show "step st newline \<noteq> Bad" using Cons.prems(3) by (cases st) simp_all
      show "step st newline = Dir \<longrightarrow> False" by (cases st) simp_all
      show "False = (Some Ws = Some Preproc)" by simp
      show "next_kind ts = Some Preproc \<longrightarrow> step st newline = Bol"
        using Cons.prems(3) by (cases st) simp_all
    qed
    moreover have "run (step st (CHR '' '')) (detokenize (compress_from Extreme (Some Ws) ts)) \<noteq> Bad"
      if np: "\<not> pp" and nn: "next_kind ts \<noteq> Some Preproc"
    proof (rule Cons.IH [OF _ qs])
      from np Cons.prems(4) have sd: "st \<noteq> Dir" by auto
      show "isolated False True ts" using iso True by simp
      show "step st (CHR '' '') \<noteq> Bad" using Cons.prems(3) by (cases st) simp_all
      show "step st (CHR '' '') = Dir \<longrightarrow> False" using sd by (cases st) simp_all
      show "False = (Some Ws = Some Preproc)" by simp
      show "next_kind ts = Some Preproc \<longrightarrow> step st (CHR '' '') = Bol" using nn by simp
    qed
    moreover have "run st (detokenize (compress_from Extreme p ts)) \<noteq> Bad"
      if np: "\<not> pp" and nn: "next_kind ts \<noteq> Some Preproc"
    proof (rule Cons.IH [OF _ qs Cons.prems(3)])
      show "isolated False True ts" using iso True by simp
      show "st = Dir \<longrightarrow> False" using np Cons.prems(4) by auto
      show "False = (p = Some Preproc)" using np Cons.prems(5) by simp
      show "next_kind ts = Some Preproc \<longrightarrow> st = Bol" using nn by simp
    qed
    ultimately show ?thesis using True t
      by (auto simp: detokenize_Cons)
  next
    case nws: False
    with pw have np: "\<not> pp" by auto
    with Cons.prems(4) have sd: "st \<noteq> Dir" by auto
    from nx nws have nn: "next_kind ts \<noteq> Some Preproc" by auto
    show ?thesis
    proof (cases "k = Preproc")
      case True
      with Cons.prems(6) t have st: "st = Bol" by (simp add: next_kind_def)
      from True pk have "directive v" by simp
      with st have rv: "run st v = Dir" by (simp add: run_directive)
      have "run Dir (detokenize (compress_from Extreme (Some Preproc) ts)) \<noteq> Bad"
      proof (rule Cons.IH [OF _ qs])
        show "isolated True False ts" using iso True by simp
        show "Dir \<noteq> Bad" by simp
        show "Dir = Dir \<longrightarrow> True" by simp
        show "True = (Some Preproc = Some Preproc)" by simp
        show "next_kind ts = Some Preproc \<longrightarrow> Dir = Bol" using nn by simp
      qed
      with True t rv show ?thesis by (simp add: detokenize_Cons run_append)
    next
      case False
      with nws q have h: "hash \<notin> set v" by (simp add: quiet_def)
      from run_no_hash [OF h Cons.prems(3)] have a: "run st v \<noteq> Bad" .
      from run_Dir_from [OF h] sd have b: "run st v \<noteq> Dir" by blast
      have "run (run st v) (detokenize (compress_from Extreme (Some k) ts)) \<noteq> Bad"
      proof (rule Cons.IH [OF _ qs a])
        show "isolated False False ts" using iso False nws by simp
        show "run st v = Dir \<longrightarrow> False" using b by simp
        show "False = (Some k = Some Preproc)" using False by simp
        show "next_kind ts = Some Preproc \<longrightarrow> run st v = Bol" using nn by simp
      qed
      with nws t show ?thesis by (simp add: detokenize_Cons run_append)
    qed
  qed
qed

lemma serialized_ok:
  assumes "hash_free_literals src"
  shows "lines_ok (serialized src Extreme r)"
proof (cases "rename_identifiers (strip_comments (tokenize src)) Extreme r")
  case (Inl e)
  then show ?thesis by (simp add: serialized_def lines_ok_def line_ok_def)
next
  case (Inr res)
  obtain toks m r1 where res: "res = ((toks, m), r1)" by (metis surj_pair)
  have "isolated False True (tokenize src)"
    unfolding tokenize_def by (rule tokenize_from_isolated) simp_all
  then have i: "isolated False True (strip_comments (tokenize src))"
    by (rule strip_comments_isolated)
  from rename_isolated_quiet [OF Inr [unfolded res] i strip_comments_quiet [OF assms]]
  have "isolated False True toks" and "list_all quiet toks" by simp_all
  then have "run Bol (detokenize (compress_from Extreme None toks)) \<noteq> Bad"
    by (rule compress_from_run) simp_all
  with Inr res show ?thesis
    by (simp add: serialized_def lines_ok_run compress_whitespace_from)
qed

subsection \<open>The limit of \<open>int\<close>\<close>

lemma digits_value_bound:
  "\<forall>c\<in>set ds. is_digit c
   \<Longrightarrow> foldl (\<lambda>a c. 10 * a + digit_val c) a ds < (a + 1) * 10 ^ length ds"
proof (induction ds arbitrary: a)
  case Nil
  show ?case by simp
next
  case (Cons c ds)
  from Cons.prems have "is_digit c" by simp
  then have "digit_val c \<le> 9" unfolding is_digit_def digit_val_def by arith
  then have "(10 * a + digit_val c + 1) * 10 ^ length ds \<le> (10 * a + 10) * 10 ^ length ds"
    by (intro mult_right_mono) simp_all
  also have "\<dots> = (a + 1) * 10 ^ length (c # ds)" by (simp add: algebra_simps)
  finally show ?case using Cons.IH [of "10 * a + digit_val c"] Cons.prems by simp
qed

lemma int_of_digits_bound:
  assumes "int_of_digits ds = Inr n" and "\<forall>c\<in>set ds. is_digit c"
  shows "0 \<le> n \<and> n < 10 ^ max_str_digits"
proof -
  let ?k = "foldl (\<lambda>a c. 10 * a + digit_val c) 0 ds"
  from assms(1) have l: "length ds \<le> max_str_digits" and n: "n = int ?k"
    by (auto simp: int_of_digits_def split: if_splits)
  from digits_value_bound [OF assms(2), of 0] have "?k < 10 ^ length ds" by simp
  also from l have "(10::nat) ^ length ds \<le> 10 ^ max_str_digits"
    by (intro power_increasing) simp_all
  finally have "int ?k < int (10 ^ max_str_digits)" by (simp only: of_nat_less_iff)
  with n show ?thesis by simp
qed

lemma replace_fails: "max_str_digits < length m \<Longrightarrow> replace m r = Inl ValueError"
  by (simp add: replace_def int_of_digits_def)

subsection \<open>The ways a run can fail\<close>

lemma replace_error: "replace m r = Inl e \<Longrightarrow> e = ValueError \<and> max_str_digits < length m"
  by (auto simp: replace_def int_of_digits_def Let_def split: sum.splits if_splits prod.splits)

lemma sub_numbers_error: "sub_numbers pw s r = Inl e \<Longrightarrow> e = ValueError"
proof (induction pw s r rule: sub_numbers.induct)
  case (1 pw r)
  then show ?case by simp
next
  case (2 pw c cs r)
  show ?case
  proof (cases "match_int pw (c # cs)")
    case None
    with "2.prems" have "sub_numbers (is_word c) cs r = Inl e"
      by (auto split: sum.splits)
    from "2.IH"(1) [OF None this] show ?thesis .
  next
    case (Some n)
    show ?thesis
    proof (cases "replace (take n (c # cs)) r")
      case (Inl e')
      with Some "2.prems" replace_error [of "take n (c # cs)" r e'] show ?thesis by simp
    next
      case (Inr p)
      obtain rep r1 where p: "p = (rep, r1)" by (cases p)
      from Some Inr p "2.prems" have "sub_numbers True (drop n (c # cs)) r1 = Inl e"
        by (auto split: sum.splits)
      from "2.IH"(2) [OF Some Inr [unfolded p] refl this] show ?thesis .
    qed
  qed
qed

lemma on_even_rng_error:
  assumes f: "\<And>x r e. f x r = Inl e \<Longrightarrow> e = ValueError"
  shows "on_even_rng f ps r = Inl e \<Longrightarrow> e = ValueError"
proof (induction ps arbitrary: r rule: induct_list012)
  case 1
  then show ?case by simp
next
  case (2 x)
  then have "f x r = Inl e" by (auto split: sum.splits)
  then show ?case by (rule f)
next
  case (3 x y rest)
  show ?case
  proof (cases "f x r")
    case (Inl e')
    with "3.prems" f [OF Inl] show ?thesis by simp
  next
    case (Inr p)
    obtain x' r1 where p: "p = (x', r1)" by (cases p)
    from Inr p "3.prems" have "on_even_rng f rest r1 = Inl e" by (auto split: sum.splits)
    from "3.IH"(1) [OF this] show ?thesis .
  qed
qed

lemma obfuscate_numbers_error:
  "obfuscate_numbers src lvl r = Inl e \<Longrightarrow> e = ValueError \<and> lvl = Extreme"
  using on_even_rng_error [of "sub_numbers False" "split_strings src" r e, OF sub_numbers_error]
  by (auto simp: obfuscate_numbers_def split: if_splits sum.splits)

text \<open>A run fails in \<open>rename_identifiers\<close>, with \<open>IndexError\<close>, or in \<open>obfuscate_numbers\<close>, at
  tier 3, with \<open>ValueError\<close>.\<close>

lemma obfuscate_error:
  assumes "obfuscate src lvl r = Inl e"
  shows "rename_identifiers (strip_comments (tokenize src)) lvl r = Inl IndexError \<and> e = IndexError
         \<or> lvl = Extreme \<and> e = ValueError"
proof (cases "rename_identifiers (strip_comments (tokenize src)) lvl r")
  case (Inl e')
  with assms rename_error [OF Inl] show ?thesis by (simp add: obfuscate_def)
next
  case (Inr res)
  obtain toks m r1 where res: "res = ((toks, m), r1)" by (metis surj_pair)
  from assms Inr res obtain t where "obfuscate_numbers t lvl r1 = Inl e"
    by (auto simp: obfuscate_def Let_def split: sum.splits)
  from obfuscate_numbers_error [OF this] show ?thesis by simp
qed

section \<open>Properties of the specification\<close>

text \<open>
  C1 (round trip).  For a source text in which every character lies inside a match of some
  alternative of the tokenizer, concatenating the lexemes of the tokens, in order, gives the
  source text back: \<open>detokenize (tokenize s) = s\<close>.
\<close>

theorem tokenize_roundtrip:
  "scannable s \<Longrightarrow> detokenize (tokenize s) = s"
  unfolding tokenize_def covered_def scannable_def
  by (simp add: detokenize_covered_from keep_all_True length_covered_from)

theorem tokenize_roundtrip_witness:
  "scannable ''int x = 10;'' \<and> detokenize (tokenize ''int x = 10;'') = ''int x = 10;''"
proof -
  have h: "scannable ''int x = 10;''" by code_simp
  from tokenize_roundtrip [OF h] h show ?thesis by simp
qed

text \<open>
  C9 (idempotence of the whitespace policy).  For every token stream and every tier, running
  \<open>compress_whitespace\<close> again, at the same tier, on the stream it produced gives that stream
  unchanged.
\<close>

theorem compress_whitespace_idempotent:
  "compress_whitespace (compress_whitespace tokens lvl) lvl = compress_whitespace tokens lvl"
  by (simp add: compress_whitespace_from compress_from_idem)

text \<open>
  C3 (pool exhaustion), evaluated on the code.  The tier-1 pool has 66 names and the tier-2
  pool 78, and neither is extended: with more distinct renameable identifiers than that, the
  lookup \<open>names[i]\<close> raises \<open>IndexError\<close> and the whole run fails.  Only tier 3 extends its
  pool (\<open>rename_extreme_total\<close>).
\<close>

theorem obfuscate_pool_exhausted:
  assumes "lvl = Mild \<and> 66 < n \<or> lvl = Moderate \<and> 78 < n"
      and "n = card (renameable (strip_comments (tokenize src)))"
  shows "obfuscate src lvl r = Inl IndexError"
proof -
  let ?ts = "strip_comments (tokenize src)"
  from assms have "lvl \<noteq> Extreme" and "pool_size lvl n < n"
    by (auto simp: pool_size_def)
  with length_base_pool [of lvl n r] assms(2)
  have "rename_identifiers ?ts lvl r = Inl IndexError"
    by (simp add: rename_fails_iff)
  then show ?thesis by (rule obfuscate_rename_fails)
qed

theorem obfuscate_pool_exhausted_witness:
  "(66::nat) < 67
   \<and> card (renameable (strip_comments (tokenize
        ''int v0,v1,v2,v3,v4,v5,v6,v7,v8,v9,v10,v11,v12,v13,v14,v15,v16,v17,v18,v19,v20,v21,v22,v23,v24,v25,v26,v27,v28,v29,v30,v31,v32,v33,v34,v35,v36,v37,v38,v39,v40,v41,v42,v43,v44,v45,v46,v47,v48,v49,v50,v51,v52,v53,v54,v55,v56,v57,v58,v59,v60,v61,v62,v63,v64,v65,v66;''))) = 67
   \<and> obfuscate
        ''int v0,v1,v2,v3,v4,v5,v6,v7,v8,v9,v10,v11,v12,v13,v14,v15,v16,v17,v18,v19,v20,v21,v22,v23,v24,v25,v26,v27,v28,v29,v30,v31,v32,v33,v34,v35,v36,v37,v38,v39,v40,v41,v42,v43,v44,v45,v46,v47,v48,v49,v50,v51,v52,v53,v54,v55,v56,v57,v58,v59,v60,v61,v62,v63,v64,v65,v66;'' Mild [] = Inl IndexError"
proof -
  let ?src = "''int v0,v1,v2,v3,v4,v5,v6,v7,v8,v9,v10,v11,v12,v13,v14,v15,v16,v17,v18,v19,v20,v21,v22,v23,v24,v25,v26,v27,v28,v29,v30,v31,v32,v33,v34,v35,v36,v37,v38,v39,v40,v41,v42,v43,v44,v45,v46,v47,v48,v49,v50,v51,v52,v53,v54,v55,v56,v57,v58,v59,v60,v61,v62,v63,v64,v65,v66;''"
  have h1: "Mild = Mild \<and> (66::nat) < 67 \<or> Mild = Moderate \<and> (78::nat) < 67" by simp
  have h2: "67 = card (renameable (strip_comments (tokenize ?src)))" by code_simp
  from obfuscate_pool_exhausted [OF h1 h2, of "[]"] h2 show ?thesis by simp
qed

text \<open>
  C5 (reserved-set invariant).  In every run that returns a mapping, at every tier, no key of
  the mapping is in the reserved set and no generated name in it is in the reserved set.
\<close>

theorem mapping_unreserved:
  assumes "rename_identifiers tokens lvl r = Inr ((toks', m), r')"
      and "(k, v) \<in> set m"
  shows "k \<notin> RESERVED \<and> v \<notin> RESERVED"
proof -
  let ?s = "sort_key (\<lambda>(k, c). - int c) (tally tokens [])"
  let ?names = "fst (generate_names (card (renameable tokens)) lvl r)"
  from rename_mapping [OF assms(1)] have m: "m = zip (map fst ?s) ?names" by simp
  from assms(2) m have "k \<in> set (map fst ?s)" and v: "v \<in> set ?names"
    by (auto dest: set_zip_leftD set_zip_rightD)
  then have "k \<in> fst ` set (tally tokens [])" by simp
  with keys_tally [of tokens] have "k \<in> renameable tokens" by simp
  then have "k \<notin> RESERVED" by (auto simp: renameable_def)
  with generated_unreserved [OF v] show ?thesis by simp
qed

theorem mapping_unreserved_witness:
  "rename_identifiers (tokenize ''b a a'') Mild []
     = Inr (([(Ident, ''z''), (Ws, '' ''), (Ident, ''y''), (Ws, '' ''), (Ident, ''y'')],
             [(''a'', ''y''), (''b'', ''z'')]), [])
   \<and> (''a'', ''y'') \<in> set [(''a'', ''y''), (''b'', ''z'')]
   \<and> ''a'' \<notin> RESERVED \<and> ''y'' \<notin> RESERVED"
proof -
  have h1: "rename_identifiers (tokenize ''b a a'') Mild []
     = Inr (([(Ident, ''z''), (Ws, '' ''), (Ident, ''y''), (Ws, '' ''), (Ident, ''y'')],
             [(''a'', ''y''), (''b'', ''z'')]), [])"
    by code_simp
  have h2: "(''a'', ''y'') \<in> set [(''a'', ''y''), (''b'', ''z'')]" by simp
  from mapping_unreserved [OF h1 h2] h1 h2 show ?thesis by simp
qed

text \<open>
  C4 (frequency ordering).  In a run that returns a mapping: for two renameable identifiers
  \<open>a\<close> and \<open>b\<close> of the stream, when \<open>a\<close> occurs more often than \<open>b\<close>, or as often and first
  occurs earlier, the mapping lists \<open>a\<close> before \<open>b\<close>, and each is mapped to the name at its own
  position in the pool prefix returned by \<open>generate_names\<close>.
\<close>

theorem rename_frequency_order:
  assumes "rename_identifiers tokens lvl r = Inr ((toks', m), r')"
      and "a \<in> renameable tokens" and "b \<in> renameable tokens"
      and "outranks tokens a b"
  shows "\<exists>i j. i < j \<and> j < length m
           \<and> m ! i = (a, fst (generate_names (length m) lvl r) ! i)
           \<and> m ! j = (b, fst (generate_names (length m) lvl r) ! j)"
proof -
  let ?s = "sort_key (\<lambda>(k, c). - int c) (tally tokens [])"
  let ?n = "card (renameable tokens)"
  let ?names = "fst (generate_names ?n lvl r)"
  note rm = rename_mapping [OF assms(1)]
  from rm have m: "m = zip (map fst ?s) ?names" by (rule conjunct1)
  from rm have ln: "length ?names = ?n" by (rule conjunct2 [THEN conjunct1])
  from rm have lm: "length m = ?n" by (rule conjunct2 [THEN conjunct2])
  have ls: "length ?s = ?n" by (simp add: length_tally)
  from before_nth [OF sorted_idents_order [OF assms(2,3,4)]]
  obtain i j where ij: "i < j" "j < length ?s"
    and si: "?s ! i = (a, occurrences tokens a)" and sj: "?s ! j = (b, occurrences tokens b)"
    by blast
  from ij ls ln have "m ! i = (fst (?s ! i), ?names ! i)" "m ! j = (fst (?s ! j), ?names ! j)"
    unfolding m by simp_all
  with si sj ij ls lm show ?thesis by auto
qed

theorem rename_frequency_order_witness:
  "rename_identifiers (tokenize ''b a a'') Mild []
     = Inr (([(Ident, ''z''), (Ws, '' ''), (Ident, ''y''), (Ws, '' ''), (Ident, ''y'')],
             [(''a'', ''y''), (''b'', ''z'')]), [])
   \<and> ''a'' \<in> renameable (tokenize ''b a a'') \<and> ''b'' \<in> renameable (tokenize ''b a a'')
   \<and> outranks (tokenize ''b a a'') ''a'' ''b''
   \<and> (\<exists>i j. i < j \<and> j < length [(''a'', ''y''), (''b'', ''z'')]
         \<and> [(''a'', ''y''), (''b'', ''z'')] ! i
             = (''a'', fst (generate_names (length [(''a'', ''y''), (''b'', ''z'')]) Mild []) ! i)
         \<and> [(''a'', ''y''), (''b'', ''z'')] ! j
             = (''b'', fst (generate_names (length [(''a'', ''y''), (''b'', ''z'')]) Mild []) ! j))"
proof -
  have h1: "rename_identifiers (tokenize ''b a a'') Mild []
     = Inr (([(Ident, ''z''), (Ws, '' ''), (Ident, ''y''), (Ws, '' ''), (Ident, ''y'')],
             [(''a'', ''y''), (''b'', ''z'')]), [])"
    by code_simp
  have h2: "''a'' \<in> renameable (tokenize ''b a a'')" by code_simp
  have h3: "''b'' \<in> renameable (tokenize ''b a a'')" by code_simp
  have h4: "outranks (tokenize ''b a a'') ''a'' ''b''" by code_simp
  from rename_frequency_order [OF h1 h2 h3 h4] h1 h2 h3 h4 show ?thesis by blast
qed

text \<open>
  C2 (unscannable input), as the code has it.  \<open>tokenize\<close> has no failure path: a character at
  which no alternative matches is skipped, so the lexemes of the token stream concatenate to
  the input with exactly the characters outside every match removed.
\<close>

theorem unscannable_skipped:
  "detokenize (tokenize src) = keep src (covered src) \<and> length (covered src) = length src"
  by (simp add: tokenize_def covered_def detokenize_covered_from length_covered_from)

text \<open>The claim fails at the text \<open>a@b\<close>: no alternative matches \<open>@\<close>, and the run returns
  output with that character dropped.\<close>

theorem unscannable_counterexample:
  "\<not> scannable ''a@b''
   \<and> obfuscate ''a@b'' Mild [] = Inr ((''yz'', [(''a'', ''y''), (''b'', ''z'')]), [])"
  by code_simp

text \<open>
  C6 (macro block position), evaluated on the code.  With two include lines the block is
  inserted after the first one, not after the last.
\<close>

theorem macros_after_first_include:
  "obfuscate (join_lines [''#include <a.h>'', ''#include <b.h>'', ''int x;'']) Moderate []
     = Inr ((join_lines ([''#include <a.h>''] @ macros @ [''#include <b.h>'', ''int _y;'']),
             [(''x'', ''_y'')]), [])"
  by code_simp

text \<open>
  C7 (string-literal safety), evaluated on the code.  After a character literal that holds a
  double quote, the split on the string pattern takes the text between that quote and the
  opening quote of the next string literal for a string, and the contents of the real
  literal \<open>"1 + 2"\<close> are rewritten.
\<close>

theorem string_literal_rewritten:
  "(Str, [dquote] @ ''1 + 2'' @ [dquote])
     \<in> set (tokenize (''char q = '' @ [squote, dquote, squote] @ ''; char *s = ''
                      @ [dquote] @ ''1 + 2'' @ [dquote] @ '';''))
   \<and> obfuscate (''char q = '' @ [squote, dquote, squote] @ ''; char *s = ''
                 @ [dquote] @ ''1 + 2'' @ [dquote] @ '';'') Extreme []
     = Inr ((join_lines (macros @ [''char l1='' @ [squote, dquote, squote] @ '';char*Il=''
                                   @ [dquote] @ ''_OB_A(1,2)'' @ [dquote] @ '';'']),
             [(''q'', ''l1''), (''s'', ''Il'')]), [])"
  by code_simp

text \<open>
  C8 (numeric obfuscation), evaluated on the code.  The tokenizer reads \<open>010\<close> as one number
  token, by its octal alternative; \<open>obfuscate_numbers\<close> reads the same digits with \<open>int\<close>, as
  ten, and writes an expression for ten in their place.
\<close>

theorem octal_literal_changed:
  "tokenize ''x = 010;''
     = [(Ident, ''x''), (Ws, '' ''), (Op, ''=''), (Ws, '' ''), (Number, ''010''), (Punct, '';'')]
   \<and> match_octal ''010'' = Some 3
   \<and> int_of_digits ''010'' = Inr 10
   \<and> obfuscate ''x = 010;'' Extreme []
       = Inr ((join_lines (macros @ [''l1=10;'']), [(''x'', ''l1'')]), [])"
  by code_simp

text \<open>
  C10 (directive line isolation).  The claim fails when a string literal holds a \<open>#\<close>: the
  line of the output that carries the literal has a \<open>#\<close> and does not start with one.
\<close>

theorem directive_isolation_counterexample:
  "(Str, [dquote] @ ''#'' @ [dquote])
     \<in> set (tokenize (''char *s = '' @ [dquote] @ ''#'' @ [dquote] @ '';''))
   \<and> obfuscate (''char *s = '' @ [dquote] @ ''#'' @ [dquote] @ '';'') Extreme []
     = Inr ((join_lines (macros @ [''_OB_M(char,l1)='' @ [dquote] @ ''#'' @ [dquote] @ '';'']),
             [(''s'', ''l1'')]), [])
   \<and> \<not> lines_ok (join_lines (macros @ [''_OB_M(char,l1)='' @ [dquote] @ ''#'' @ [dquote] @ '';'']))"
  by code_simp

text \<open>
  C10 as amended: at tier 3, when no string literal and no character literal of the source
  holds a \<open>#\<close>, every non-empty line of the final output starts with \<open>#\<close> or holds no \<open>#\<close>.
  The tokenizer puts whitespace around each directive (\<open>tokenize_from_isolated\<close>), the
  whitespace policy turns it into line breaks (\<open>compress_from_run\<close>), and the flattener, the
  macro injector and the numeric pass keep the lines apart (\<open>text_passes_ok\<close>).
\<close>

theorem directive_isolation:
  assumes "obfuscate src Extreme r = Inr ((out, m), r')"
      and "hash_free_literals src"
  shows "lines_ok out"
proof -
  from obfuscate_serialized [OF assms(1)] obtain r1 where
    "obfuscate_numbers
       (inject_macros (flatten_code (serialized src Extreme r) Extreme) Extreme) Extreme r1
     = Inr (out, r')"
    by blast
  from text_passes_ok [OF serialized_ok [OF assms(2)] this] show ?thesis .
qed

theorem directive_isolation_witness:
  "obfuscate (join_lines [''#define N 4'', ''char *s = '' @ [dquote] @ ''a b'' @ [dquote] @ '';''])
       Extreme []
     = Inr ((join_lines (macros @ [''#define N 4'',
                ''_OB_M(char,l1)='' @ [dquote] @ ''a b'' @ [dquote] @ '';'']),
             [(''s'', ''l1'')]), [])
   \<and> hash_free_literals
         (join_lines [''#define N 4'', ''char *s = '' @ [dquote] @ ''a b'' @ [dquote] @ '';''])
   \<and> lines_ok (join_lines (macros @ [''#define N 4'',
                ''_OB_M(char,l1)='' @ [dquote] @ ''a b'' @ [dquote] @ '';'']))"
proof -
  let ?src = "join_lines [''#define N 4'', ''char *s = '' @ [dquote] @ ''a b'' @ [dquote] @ '';'']"
  have h1: "obfuscate ?src Extreme []
     = Inr ((join_lines (macros @ [''#define N 4'',
                ''_OB_M(char,l1)='' @ [dquote] @ ''a b'' @ [dquote] @ '';'']),
             [(''s'', ''l1'')]), [])"
    by code_simp
  have h2: "hash_free_literals ?src"
    by code_simp
  from directive_isolation [OF h1 h2] h1 h2 show ?thesis by simp
qed

end
